theory Spec2Isabelle
  imports Main "HOL-Library.Sublist" "HOL-Library.AList"
begin

text \<open>
  Three files of Nuclide, an extension suite of the Atom editor, are embedded here and
  their stated properties proved: the device provider that stops a package
  (\<open>pkg/nuclide-adb-sdb/lib/ATDeviceStopPackageProvider.js\<close>), the loader of the features
  (\<open>lib/main.js\<close>), and the observer of the visibility of a pane item
  (\<open>modules/nuclide-commons-atom/observePaneItemVisibility.js\<close>).  The definitions come
  first, file by file, each with the lines it embeds; the properties follow.
\<close>

section \<open>The device provider: \<open>ATDeviceStopPackageProvider.js\<close>\<close>

text \<open>
  A \<open>Process\<close> (declared in \<open>nuclide-devices/lib/types\<close>) is read through two fields only:
  \<open>pid\<close> and \<open>name\<close>.  The record is extensible, so a process may carry any further fields.
\<close>

record Process =
  pid :: int
  name :: string

text \<open>
  The RPC service obtained from the factory.  A method call acts on the outside world
  \<open>'w\<close> and delivers an outcome \<open>'r\<close> (what the returned promise settles to).
\<close>

record ('r, 'w) AdbService =
  killProcess :: "string \<Rightarrow> string \<Rightarrow> 'w \<Rightarrow> 'r \<times> 'w"

text \<open>The two private fields \<open>_type\<close> and \<open>_rpcFactory\<close> of the class.\<close>

record ('r, 'w) provider =
  priv_type :: string
  priv_rpcFactory :: "string \<Rightarrow> ('r, 'w) AdbService"

datatype 'a promise = Fulfilled 'a | Rejected string

definition ATDeviceStopPackageProvider ::
  "string \<Rightarrow> (string \<Rightarrow> ('r, 'w) AdbService) \<Rightarrow> ('r, 'w) provider" where
  "ATDeviceStopPackageProvider ty rpcFactory = \<lparr>priv_type = ty, priv_rpcFactory = rpcFactory\<rparr>"

definition getType :: "('r, 'w) provider \<Rightarrow> string" where
  "getType this = priv_type this"

definition getTaskType :: "('r, 'w) provider \<Rightarrow> string" where
  "getTaskType this = ''STOP_PACKAGE''"

definition getName :: "('r, 'w) provider \<Rightarrow> string" where
  "getName this = ''Stop package''"

definition isSupported :: "('r, 'w) provider \<Rightarrow> 'm Process_scheme \<Rightarrow> bool" where
  "isSupported this proc = True"

text \<open>
  \<open>new Set(array)\<close>: the elements in insertion order, each kept at its first occurrence.
\<close>

definition Set_add :: "'a list \<Rightarrow> 'a \<Rightarrow> 'a list" where
  "Set_add s x = (if x \<in> set s then s else s @ [x])"

definition new_Set :: "'a list \<Rightarrow> 'a list" where
  "new_Set xs = foldl Set_add [] xs"

definition getSupportedPIDs ::
  "('r, 'w) provider \<Rightarrow> string \<Rightarrow> string \<Rightarrow> 'm Process_scheme list \<Rightarrow> int list promise" where
  "getSupportedPIDs this host device procs = Fulfilled (new_Set (map pid procs))"

definition run ::
  "('r, 'w) provider \<Rightarrow> string \<Rightarrow> string \<Rightarrow> 'm Process_scheme \<Rightarrow> 'w \<Rightarrow> 'r \<times> 'w" where
  "run this host device proc = killProcess (priv_rpcFactory this host) device (name proc)"

text \<open>
  An instrumented service: the world is the log of RPC requests sent so far, and
  \<open>killProcess\<close> appends the request it stands for.
\<close>

datatype rpc_request = KillProcessRequest string string string

definition logging_service :: "string \<Rightarrow> (unit, rpc_request list) AdbService" where
  "logging_service host =
     \<lparr>killProcess = (\<lambda>device nm log. ((), log @ [KillProcessRequest host device nm]))\<rparr>"

section \<open>JavaScript values\<close>

text \<open>
  The values the loader handles: what \<open>JSON.parse\<close> yields, plus \<open>undefined\<close>.  A number is
  carried as its \<open>ToString\<close> rendering, the only thing (with its truthiness) the loader
  observes of it.  An object is the list of its own properties in the order they were
  created (a property named like an array index, which JavaScript enumerates first, is
  not treated apart; nothing proved below depends on where an assignment of the loader
  puts a property in the enumeration).
  A thrown value is an \<open>Error\<close> object (a kind, a message and, for a system error, a
  code) or any other value, as in \<open>throw null\<close>.
\<close>

datatype jsval =
    Undefined
  | Null
  | Bool bool
  | Num string
  | Str string
  | Arr "jsval list"
  | Obj "(string \<times> jsval) list"

datatype js_error =
    TypeError string
  | AssertionError string
  | SyntaxError string
  | SystemError string string
  | Error string
  | Thrown jsval

definition bind :: "js_error + 'a \<Rightarrow> ('a \<Rightarrow> js_error + 'b) \<Rightarrow> js_error + 'b" where
  "bind m f = (case m of Inl e \<Rightarrow> Inl e | Inr x \<Rightarrow> f x)"

fun truthy :: "jsval \<Rightarrow> bool" where
  "truthy Undefined = False"
| "truthy Null = False"
| "truthy (Bool b) = b"
| "truthy (Num s) = (s \<noteq> ''0'' \<and> s \<noteq> ''NaN'')"
| "truthy (Str s) = (s \<noteq> [])"
| "truthy (Arr xs) = True"
| "truthy (Obj kvs) = True"

text \<open>\<open>a || b\<close>, with \<open>b\<close> already a value.\<close>

definition js_or :: "jsval \<Rightarrow> jsval \<Rightarrow> jsval" where
  "js_or a b = (if truthy a then a else b)"

text \<open>\<open>invariant(cond)\<close> from \<open>assert\<close>.\<close>

definition invariant :: "bool \<Rightarrow> js_error + unit" where
  "invariant c = (if c then Inr () else Inl (AssertionError ''Invariant violation''))"

text \<open>The decimal rendering of an array index.\<close>

fun show_nat :: "nat \<Rightarrow> string" where
  "show_nat n =
     (if n < 10 then [char_of (48 + n)]
      else show_nat (n div 10) @ [char_of (48 + n mod 10)])"

text \<open>
  \<open>ToString\<close>, as a template literal, a property key and string concatenation apply it.
  A plain object renders as \<open>[object Object]\<close> unless it has an own \<open>toString\<close> property
  (from JSON: never callable), when the conversion throws.  An array joins its elements
  with commas, \<open>null\<close> and \<open>undefined\<close> rendering as the empty string.
\<close>

fun ToString :: "jsval \<Rightarrow> js_error + string"
  and join_elements :: "jsval list \<Rightarrow> js_error + string" where
  "ToString Undefined = Inr ''undefined''"
| "ToString Null = Inr ''null''"
| "ToString (Bool b) = Inr (if b then ''true'' else ''false'')"
| "ToString (Num s) = Inr s"
| "ToString (Str s) = Inr s"
| "ToString (Arr xs) = join_elements xs"
| "ToString (Obj kvs) =
     (if ''toString'' \<in> fst ` set kvs
      then Inl (TypeError ''Cannot convert object to primitive value'')
      else Inr ''[object Object]'')"
| "join_elements [] = Inr []"
| "join_elements (x # xs) =
     bind (if x = Undefined \<or> x = Null then Inr [] else ToString x) (\<lambda>s.
       if xs = [] then Inr s
       else bind (join_elements xs) (\<lambda>r. Inr (s @ '','' @ r)))"

text \<open>
  The own enumerable properties of a value, as object spread and \<open>Object.keys\<close> see them.
\<close>

fun own_properties :: "jsval \<Rightarrow> (string \<times> jsval) list" where
  "own_properties (Obj kvs) = kvs"
| "own_properties (Arr xs) = zip (map show_nat [0..<length xs]) xs"
| "own_properties (Str s) = zip (map show_nat [0..<length s]) (map (\<lambda>c. Str [c]) s)"
| "own_properties v = []"

definition Object_keys :: "jsval \<Rightarrow> js_error + string list" where
  "Object_keys v =
     (if v = Undefined \<or> v = Null
      then Inl (TypeError ''Cannot convert undefined or null to object'')
      else Inr (map fst (own_properties v)))"

text \<open>
  Reading a property, \<open>v.k\<close> or \<open>v[k]\<close>: a \<open>TypeError\<close> on \<open>undefined\<close> and \<open>null\<close>, the own
  property where there is one, the length of an array or string, and \<open>undefined\<close>
  otherwise.  Properties inherited from the built-in prototypes are not modelled; none of
  the names the loader reads is one.
\<close>

definition js_get :: "jsval \<Rightarrow> string \<Rightarrow> js_error + jsval" where
  "js_get v k =
     (if v = Undefined \<or> v = Null
      then Inl (TypeError (''Cannot read property '' @ k))
      else case map_of (own_properties v) k of
             Some x \<Rightarrow> Inr x
           | None \<Rightarrow>
               (case v of
                  Arr xs \<Rightarrow> if k = ''length'' then Inr (Num (show_nat (length xs))) else Inr Undefined
                | Str s \<Rightarrow> if k = ''length'' then Inr (Num (show_nat (length s))) else Inr Undefined
                | _ \<Rightarrow> Inr Undefined))"

text \<open>
  \<open>err && err.code === 'ENOENT'\<close> is decided by the code of a thrown value when that is a
  string: the code of a system error, the property \<open>code\<close> of a truthy value that is not an
  \<open>Error\<close> object.
\<close>

fun code :: "js_error \<Rightarrow> string option" where
  "code (SystemError c m) = Some c"
| "code (Thrown v) =
     (if truthy v
      then (case js_get v ''code'' of Inr (Str c) \<Rightarrow> Some c | _ \<Rightarrow> None)
      else None)"
| "code e = None"

text \<open>
  \<open>err.message\<close>: the message of an \<open>Error\<close> object, and otherwise the property \<open>message\<close> of
  the thrown value, the reading of which throws a \<open>TypeError\<close> on \<open>null\<close> and \<open>undefined\<close>.
\<close>

fun message :: "js_error \<Rightarrow> js_error + jsval" where
  "message (TypeError m) = Inr (Str m)"
| "message (AssertionError m) = Inr (Str m)"
| "message (SyntaxError m) = Inr (Str m)"
| "message (SystemError c m) = Inr (Str m)"
| "message (Error m) = Inr (Str m)"
| "message (Thrown v) = js_get v ''message''"

text \<open>
  Assigning a property of a plain object, \<open>o[k] = v\<close>: an existing property keeps its
  place, a new one goes last.  The name \<open>__proto__\<close> reaches the prototype setter and
  creates no own property.
\<close>

definition obj_set :: "(string \<times> 'v) list \<Rightarrow> string \<Rightarrow> 'v \<Rightarrow> (string \<times> 'v) list" where
  "obj_set kvs k v = (if k = ''__proto__'' then kvs else AList.update k v kvs)"

text \<open>\<open>s.indexOf(t)\<close>: the first position where \<open>t\<close> occurs in \<open>s\<close>, or \<open>-1\<close>.\<close>

fun indexOf_from :: "nat \<Rightarrow> string \<Rightarrow> string \<Rightarrow> int" where
  "indexOf_from i [] t = (if t = [] then int i else -1)"
| "indexOf_from i (c # cs) t =
     (if prefix t (c # cs) then int i else indexOf_from (Suc i) cs t)"

definition indexOf :: "string \<Rightarrow> string \<Rightarrow> int" where
  "indexOf s t = indexOf_from 0 s t"

text \<open>\<open>s.startsWith(t)\<close>.\<close>

definition startsWith :: "string \<Rightarrow> string \<Rightarrow> bool" where
  "startsWith s t = prefix t s"

section \<open>The file system and the environment of \<open>main.js\<close>\<close>

text \<open>
  A snapshot of the file system as a tree; a path is the list of its segments.  The three
  \<open>fs\<close> calls the loader makes fail as Node's do: \<open>ENOENT\<close> for a missing entry, \<open>ENOTDIR\<close>
  when a path goes through a file, \<open>EISDIR\<close> when a directory is read as a file.
\<close>

datatype node = File string | Dir "(string \<times> node) list"

fun lookup_path :: "node \<Rightarrow> string list \<Rightarrow> js_error + node" where
  "lookup_path n [] = Inr n"
| "lookup_path (File c) (s # ss) = Inl (SystemError ''ENOTDIR'' ''not a directory'')"
| "lookup_path (Dir es) (s # ss) =
     (case map_of es s of
        None \<Rightarrow> Inl (SystemError ''ENOENT'' ''no such file or directory'')
      | Some n \<Rightarrow> lookup_path n ss)"

record Stats =
  isFile :: bool

definition statSync :: "node \<Rightarrow> string list \<Rightarrow> js_error + Stats" where
  "statSync root p =
     bind (lookup_path root p) (\<lambda>n.
       Inr \<lparr>isFile = (case n of File c \<Rightarrow> True | Dir es \<Rightarrow> False)\<rparr>)"

definition readFileSync :: "node \<Rightarrow> string list \<Rightarrow> js_error + string" where
  "readFileSync root p =
     bind (lookup_path root p) (\<lambda>n.
       case n of
         File c \<Rightarrow> Inr c
       | Dir es \<Rightarrow> Inl (SystemError ''EISDIR'' ''illegal operation on a directory''))"

definition readdirSync :: "node \<Rightarrow> string list \<Rightarrow> js_error + string list" where
  "readdirSync root p =
     bind (lookup_path root p) (\<lambda>n.
       case n of
         File c \<Rightarrow> Inl (SystemError ''ENOTDIR'' ''not a directory'')
       | Dir es \<Rightarrow> Inr (map fst es))"

definition path_join :: "string list \<Rightarrow> string \<Rightarrow> string list" where
  "path_join p s = (if s = ''..'' then butlast p else p @ [s])"

text \<open>
  What the module finds around it at load time: the file system, the directory of
  \<open>main.js\<close> (\<open>__dirname\<close>) and \<open>JSON.parse\<close>, a built-in taken as given.
\<close>

record env =
  fs_root :: node
  dirname_of_main :: "string list"
  JSON_parse :: "string \<Rightarrow> js_error + jsval"

section \<open>Feature discovery: \<open>main.js\<close>, lines 98 to 150\<close>

record feature =
  pkg :: jsval
  dirname :: "string list"
  useKeyPath :: string

type_synonym features = "(string \<times> feature) list"

definition FEATURES_DIR :: "env \<Rightarrow> string list" where
  "FEATURES_DIR e = path_join (path_join (dirname_of_main e) ''..'') ''pkg''"

definition ATOM_IDE_DIR :: "env \<Rightarrow> string list" where
  "ATOM_IDE_DIR e =
     path_join (path_join (path_join (path_join (dirname_of_main e) ''..'')
       ''modules'') ''atom-ide-ui'') ''pkg''"

text \<open>
  The object literal \<open>{pkg, dirname, useKeyPath: `nuclide.use.${pkg.name}`}\<close> stored under
  \<open>features[pkg.name]\<close>: the key and the template literal both convert the name to a string.
\<close>

definition new_feature :: "jsval \<Rightarrow> string list \<Rightarrow> js_error + string \<times> feature" where
  "new_feature p d =
     bind (js_get p ''name'') (\<lambda>nm.
     bind (ToString nm) (\<lambda>key.
       Inr (key, \<lparr>pkg = p, dirname = d, useKeyPath = ''nuclide.use.'' @ key\<rparr>)))"

text \<open>The text \<open>"Atom"\<close>, with its double quotes, that line 124 looks for.\<close>

definition quoted_Atom :: string where
  "quoted_Atom = CHR 0x22 # ''Atom'' @ [CHR 0x22]"

text \<open>
  Lines 128 to 135, on the parsed package: \<open>pkg.nuclide && pkg.nuclide.packageType === 'Atom'\<close>,
  then \<open>invariant(pkg.name)\<close> and the value to assign.
\<close>

definition register_package ::
  "jsval \<Rightarrow> string list \<Rightarrow> js_error + (string \<times> feature) option" where
  "register_package p dir =
     bind (js_get p ''nuclide'') (\<lambda>nuc.
       if \<not> truthy nuc then Inr None
       else
         bind (js_get nuc ''packageType'') (\<lambda>t.
           if t = Str ''Atom'' then
             bind (js_get p ''name'') (\<lambda>nm.
             bind (invariant (truthy nm)) (\<lambda>u.
             bind (new_feature p dir) (\<lambda>kf. Inr (Some kf))))
           else Inr None))"

text \<open>Lines 122 to 127: read the file, look for \<open>"Atom"\<close> in its text, parse it.\<close>

definition read_package ::
  "env \<Rightarrow> string list \<Rightarrow> string list \<Rightarrow> js_error + (string \<times> feature) option" where
  "read_package e dir filename =
     bind (readFileSync (fs_root e) filename) (\<lambda>src.
       if indexOf src quoted_Atom = -1 then Inr None
       else bind (JSON_parse e src) (\<lambda>p. register_package p dir))"

text \<open>
  The body of the first \<open>forEach\<close> (lines 107 to 136) for one directory entry: it returns
  early (\<open>None\<close>), throws, or reaches the assignment to \<open>features[pkg.name]\<close> (\<open>Some\<close> of the
  key and the value assigned).  An error of the \<open>try\<close> block other than \<open>ENOENT\<close> is
  swallowed, and the body goes on to read the file.
\<close>

definition read_feature :: "env \<Rightarrow> string \<Rightarrow> js_error + (string \<times> feature) option" where
  "read_feature e item =
     (if indexOf item ''.'' \<noteq> -1 then Inr None
      else
        let dir = path_join (FEATURES_DIR e) item;
            filename = path_join dir ''package.json''
        in
          case bind (statSync (fs_root e) filename) (\<lambda>stat. invariant (isFile stat)) of
            Inl err \<Rightarrow>
              if code err = Some ''ENOENT'' then Inr None
              else read_package e dir filename
          | Inr u \<Rightarrow> read_package e dir filename)"

text \<open>The body of the second \<open>forEach\<close> (lines 140 to 150), which checks nothing.\<close>

definition read_ide_feature :: "env \<Rightarrow> string \<Rightarrow> js_error + (string \<times> feature) option" where
  "read_ide_feature e item =
     (let dir = path_join (ATOM_IDE_DIR e) item;
          filename = path_join dir ''package.json''
      in
        bind (readFileSync (fs_root e) filename) (\<lambda>src.
        bind (JSON_parse e src) (\<lambda>p.
        bind (new_feature p dir) (\<lambda>kf. Inr (Some kf)))))"

text \<open>\<open>items.forEach(body)\<close>, the body updating \<open>features\<close>; a throw ends the loop.\<close>

fun forEach_item ::
  "(string \<Rightarrow> js_error + (string \<times> feature) option) \<Rightarrow> string list \<Rightarrow> features
     \<Rightarrow> js_error + features" where
  "forEach_item body [] fs = Inr fs"
| "forEach_item body (item # items) fs =
     bind (body item) (\<lambda>r.
       forEach_item body items (case r of None \<Rightarrow> fs | Some (k, v) \<Rightarrow> obj_set fs k v))"

definition discover_pkg :: "env \<Rightarrow> js_error + features" where
  "discover_pkg e =
     bind (readdirSync (fs_root e) (FEATURES_DIR e)) (\<lambda>items.
       forEach_item (read_feature e) items [])"

definition discover :: "env \<Rightarrow> js_error + features" where
  "discover e =
     bind (discover_pkg e) (\<lambda>fs.
     bind (readdirSync (fs_root e) (ATOM_IDE_DIR e)) (\<lambda>items.
       forEach_item (read_ide_feature e) items fs))"

subsection \<open>The stated conditions for a feature\<close>

text \<open>
  The conditions as the specification words them, for comparison with the loop above: the
  parsed package declares \<open>nuclide.packageType\<close> equal to \<open>'Atom'\<close>.
\<close>

definition declares_Atom :: "jsval \<Rightarrow> bool" where
  "declares_Atom p =
     (case js_get p ''nuclide'' of
        Inr nuc \<Rightarrow> js_get nuc ''packageType'' = Inr (Str ''Atom'')
      | Inl err \<Rightarrow> False)"

text \<open>
  The entry's name contains no \<open>.\<close>, the entry contains a file \<open>package.json\<close>, the text of
  that file contains \<open>"Atom"\<close>, and the parsed package declares the package type; the
  result is the parsed package when all four hold.
\<close>

definition claimed_package :: "env \<Rightarrow> string \<Rightarrow> jsval option" where
  "claimed_package e item =
     (if CHR ''.'' \<in> set item then None
      else case lookup_path (fs_root e) (FEATURES_DIR e @ [item, ''package.json'']) of
             Inr (File src) \<Rightarrow>
               if sublist quoted_Atom src
               then (case JSON_parse e src of
                       Inr p \<Rightarrow> if declares_Atom p then Some p else None
                     | Inl err \<Rightarrow> None)
               else None
           | _ \<Rightarrow> None)"

text \<open>
  The feature an entry stands for, as stated: the parsed package of an entry that meets
  the four conditions, under its name as a string, with the directory of the entry and
  the key path \<open>nuclide.use.<name>\<close>.
\<close>

definition stated_feature :: "env \<Rightarrow> string \<Rightarrow> (string \<times> feature) option" where
  "stated_feature e item =
     (case claimed_package e item of
        None \<Rightarrow> None
      | Some p \<Rightarrow>
          (case js_get p ''name'' of
             Inl err \<Rightarrow> None
           | Inr nm \<Rightarrow>
               (case ToString nm of
                  Inl err \<Rightarrow> None
                | Inr k \<Rightarrow>
                    Some (k, \<lparr>pkg = p, dirname = FEATURES_DIR e @ [item],
                               useKeyPath = ''nuclide.use.'' @ k\<rparr>))))"

subsection \<open>Two small installations\<close>

text \<open>
  A \<open>pkg\<close> directory whose only entry \<open>foo\<close> holds the package
  \<open>{"nuclide":{"packageType":"Atom"}}\<close>, which has no name; and one with two entries,
  \<open>a\<close> and \<open>b\<close>, that both hold the package named \<open>foo\<close>.  \<open>JSON.parse\<close> is given on
  these two texts.
\<close>

definition nameless_text :: string where
  "nameless_text = ''{'' @ [CHR 0x22] @ ''nuclide'' @ [CHR 0x22] @ '':{'' @ [CHR 0x22] @ ''packageType''
     @ [CHR 0x22] @ '':'' @ quoted_Atom @ ''}}''"

definition nameless_package :: jsval where
  "nameless_package = Obj [(''nuclide'', Obj [(''packageType'', Str ''Atom'')])]"

definition foo_text :: string where
  "foo_text = ''{'' @ [CHR 0x22] @ ''name'' @ [CHR 0x22] @ '':'' @ [CHR 0x22] @ ''foo'' @ [CHR 0x22]
     @ '','' @ [CHR 0x22] @ ''nuclide'' @ [CHR 0x22] @ '':{'' @ [CHR 0x22] @ ''packageType''
     @ [CHR 0x22] @ '':'' @ quoted_Atom @ ''}}''"

definition foo_package :: jsval where
  "foo_package = Obj [(''name'', Str ''foo''), (''nuclide'', Obj [(''packageType'', Str ''Atom'')])]"

definition example_parse :: "string \<Rightarrow> js_error + jsval" where
  "example_parse src =
     (if src = nameless_text then Inr nameless_package
      else if src = foo_text then Inr foo_package
      else Inl (SyntaxError ''Unexpected token''))"

definition example_env :: "(string \<times> node) list \<Rightarrow> env" where
  "example_env entries =
     \<lparr>fs_root = Dir [(''nuclide'', Dir [(''lib'', Dir []), (''pkg'', Dir entries)])],
      dirname_of_main = [''nuclide'', ''lib''],
      JSON_parse = example_parse\<rparr>"

definition nameless_env :: env where
  "nameless_env = example_env [(''foo'', Dir [(''package.json'', File nameless_text)])]"

definition twice_env :: env where
  "twice_env = example_env
     [(''a'', Dir [(''package.json'', File foo_text)]),
      (''b'', Dir [(''package.json'', File foo_text)])]"

definition foo_feature_in :: "string \<Rightarrow> feature" where
  "foo_feature_in item = \<lparr>pkg = foo_package, dirname = [''nuclide'', ''pkg'', item],
     useKeyPath = ''nuclide.use.foo''\<rparr>"

section \<open>The settings schema: \<open>main.js\<close>, lines 65 to 89 and 152 to 199\<close>

text \<open>
  Assigning a property through a value, \<open>o[k] = v\<close> in a module (strict mode): on an
  object the property is set, on \<open>undefined\<close>, \<open>null\<close> and the primitives a \<open>TypeError\<close> is
  thrown.  The loader assigns only to objects it has created; an assignment to an array
  is not part of the model.
\<close>

definition js_assign :: "jsval \<Rightarrow> string \<Rightarrow> jsval \<Rightarrow> js_error + jsval" where
  "js_assign target k v =
     (case target of
        Obj kvs \<Rightarrow> Inr (Obj (obj_set kvs k v))
      | Arr xs \<Rightarrow> Inl (Error ''assignment to an array is not modelled'')
      | _ \<Rightarrow> Inl (TypeError (''Cannot set property '' @ k)))"

text \<open>Following a path of property reads, \<open>v.a.b.c\<close>.\<close>

fun get_path :: "jsval \<Rightarrow> string list \<Rightarrow> js_error + jsval" where
  "get_path v [] = Inr v"
| "get_path v (k # ks) = bind (js_get v k) (\<lambda>x. get_path x ks)"

text \<open>\<open>keys.join(', ')\<close> on an array of strings.\<close>

fun Array_join :: "string list \<Rightarrow> string \<Rightarrow> string" where
  "Array_join [] sep = []"
| "Array_join [x] sep = x"
| "Array_join (x # y # ys) sep = x @ sep @ Array_join (y # ys) sep"

text \<open>The exported \<open>config\<close> object as the module first writes it (lines 66 to 89).\<close>

definition installRecommendedPackages_description :: string where
  "installRecommendedPackages_description =
     ''On start up, check for and install Atom packages recommended for use with Nuclide. The''
     @ '' list of packages can be found in the <code>package-deps</code> setting in this package''
     @ [CHR 0x27] @ ''s '' @ [CHR 0x22] @ ''package.json'' @ [CHR 0x22]
     @ '' file. Disabling this setting will not uninstall packages it previously''
     @ '' installed. Restart Atom after changing this setting for it to take effect.''"

definition useLocalRpc_description :: string where
  "useLocalRpc_description =
     ''Use RPC marshalling for local services. This ensures better compatibility between the local''
     @ '' and remote case. Useful for internal Nuclide development. Requires restart to take''
     @ '' effect.''"

definition initial_config :: "(string \<times> jsval) list" where
  "initial_config =
     [(''installRecommendedPackages'', Obj
         [(''default'', Bool False),
          (''description'', Str installRecommendedPackages_description),
          (''title'', Str ''Install Recommended Packages on Startup''),
          (''type'', Str ''boolean'')]),
      (''useLocalRpc'', Obj
         [(''default'', Bool False),
          (''description'', Str useLocalRpc_description),
          (''title'', Str ''Use RPC for local Services.''),
          (''type'', Str ''boolean'')]),
      (''use'', Obj
         [(''type'', Str ''object''),
          (''collapsed'', Bool True),
          (''properties'', Obj [])])]"

text \<open>
  Lines 165 to 181: the entry that enables or disables the feature.  \<open>+=\<close> on the
  description converts what is there to a string.
\<close>

definition feature_setting :: "string \<Rightarrow> jsval \<Rightarrow> js_error + jsval" where
  "feature_setting fname p =
     (let enabled = \<not> startsWith fname ''sample-'' in
      bind (js_get p ''description'') (\<lambda>d.
      let description = js_or d (Str '''') in
      bind (js_get p ''providedServices'') (\<lambda>ps.
      bind (if truthy ps
            then bind (Object_keys ps) (\<lambda>ks.
                 bind (ToString description) (\<lambda>s.
                   Inr (Str (s @ ''<br/>**Provides:** _'' @ Array_join ks '', '' @ ''_''))))
            else Inr description) (\<lambda>description.
      bind (js_get p ''consumedServices'') (\<lambda>cs.
      bind (if truthy cs
            then bind (Object_keys cs) (\<lambda>ks.
                 bind (ToString description) (\<lambda>s.
                   Inr (Str (s @ ''<br/>**Consumes:** _'' @ Array_join ks '', '' @ ''_''))))
            else Inr description) (\<lambda>description.
        Inr (Obj
          [(''title'', Str (''Enable the '' @ [CHR 0x22] @ fname @ [CHR 0x22] @ '' feature'')),
           (''description'', description),
           (''type'', Str ''boolean''),
           (''default'', Bool enabled)])))))))"

text \<open>
  \<open>config[owner].properties[k] = rhs\<close> (lines 182 and 193): the target is read first, then
  the right-hand side is evaluated, then the property is set.  The model updates the tree
  along the path; the objects on it are referenced from nowhere else.
\<close>

definition assign_in_properties ::
  "(string \<times> jsval) list \<Rightarrow> string \<Rightarrow> string \<Rightarrow> js_error + jsval
     \<Rightarrow> js_error + (string \<times> jsval) list" where
  "assign_in_properties config owner k rhs =
     bind (js_get (Obj config) owner) (\<lambda>obj.
     bind (js_get obj ''properties'') (\<lambda>props.
     bind rhs (\<lambda>v.
     bind (js_assign props k v) (\<lambda>props'.
     bind (js_assign obj ''properties'' props') (\<lambda>obj'.
       Inr (obj_set config owner obj'))))))"

text \<open>Line 185: \<open>pkg.atomConfig || pkg.nuclide.config\<close>.\<close>

definition package_config :: "jsval \<Rightarrow> js_error + jsval" where
  "package_config p =
     bind (js_get p ''atomConfig'') (\<lambda>ac.
       if truthy ac then Inr ac
       else bind (js_get p ''nuclide'') (\<lambda>nuc. js_get nuc ''config''))"

text \<open>
  Lines 193 to 196: the object literal \<open>{...pkgConfig[key], title: pkgConfig[key].title || key}\<close>.
\<close>

definition config_entry :: "jsval \<Rightarrow> string \<Rightarrow> js_error + jsval" where
  "config_entry pkgConfig key =
     bind (js_get pkgConfig key) (\<lambda>entry.
     bind (js_get entry ''title'') (\<lambda>t.
       Inr (Obj (AList.update ''title'' (js_or t (Str key)) (own_properties entry)))))"

text \<open>Lines 192 to 197: the inner \<open>forEach\<close> over the keys of the feature's config.\<close>

fun forEach_key ::
  "jsval \<Rightarrow> string \<Rightarrow> string list \<Rightarrow> (string \<times> jsval) list \<Rightarrow> js_error + (string \<times> jsval) list" where
  "forEach_key pkgConfig fname [] config = Inr config"
| "forEach_key pkgConfig fname (key # keys) config =
     bind (assign_in_properties config fname key (config_entry pkgConfig key)) (\<lambda>config'.
       forEach_key pkgConfig fname keys config')"

text \<open>Lines 161 to 198: the body of the outer \<open>forEach\<close> for the feature \<open>name\<close>.\<close>

definition add_feature_config ::
  "string \<Rightarrow> feature \<Rightarrow> (string \<times> jsval) list \<Rightarrow> js_error + (string \<times> jsval) list" where
  "add_feature_config fname f config =
     bind (feature_setting fname (pkg f)) (\<lambda>setting.
     bind (assign_in_properties config ''use'' fname (Inr setting)) (\<lambda>config1.
     bind (package_config (pkg f)) (\<lambda>pkgConfig.
       if truthy pkgConfig then
         let config2 = obj_set config1 fname
               (Obj [(''type'', Str ''object''), (''collapsed'', Bool True), (''properties'', Obj [])])
         in bind (Object_keys pkgConfig) (\<lambda>keys. forEach_key pkgConfig fname keys config2)
       else Inr config1)))"

text \<open>
  Lines 160 to 199: \<open>Object.keys(features).forEach(name => ...)\<close>, each feature looked up
  by its name.
\<close>

fun forEach_name ::
  "features \<Rightarrow> string list \<Rightarrow> (string \<times> jsval) list \<Rightarrow> js_error + (string \<times> jsval) list" where
  "forEach_name fs [] config = Inr config"
| "forEach_name fs (fname # names) config =
     (case map_of fs fname of
        None \<Rightarrow> Inl (TypeError ''Cannot destructure property pkg of undefined'')
      | Some f \<Rightarrow> bind (add_feature_config fname f config) (forEach_name fs names))"

definition build_config :: "features \<Rightarrow> js_error + (string \<times> jsval) list" where
  "build_config fs = forEach_name fs (map fst fs) initial_config"

subsection \<open>The schema as stated\<close>

text \<open>The shape of \<open>config.use\<close> and of each \<open>config[name]\<close> the loader creates.\<close>

definition schema_object :: "(string \<times> jsval) list \<Rightarrow> jsval" where
  "schema_object props =
     Obj [(''type'', Str ''object''), (''collapsed'', Bool True), (''properties'', Obj props)]"

text \<open>
  What the schema holds for the feature \<open>fname\<close>: its enabling entry under
  \<open>config.use.properties\<close> and, when the package declares a config, the object
  \<open>config[fname]\<close> with one property for each key of that config.
\<close>

definition feature_configured :: "string \<Rightarrow> feature \<Rightarrow> (string \<times> jsval) list \<Rightarrow> bool" where
  "feature_configured fname f config \<longleftrightarrow>
     (\<exists>uprops setting pc.
        map_of config ''use'' = Some (schema_object uprops) \<and>
        feature_setting fname (pkg f) = Inr setting \<and>
        map_of uprops fname = Some setting \<and>
        package_config (pkg f) = Inr pc \<and>
        (truthy pc \<longrightarrow>
           (\<exists>ks props. Object_keys pc = Inr ks \<and>
              map_of config fname = Some (schema_object props) \<and>
              (\<forall>key\<in>set ks. \<exists>v. config_entry pc key = Inr v \<and>
                 (key \<noteq> ''__proto__'' \<longrightarrow> map_of props key = Some v)) \<and>
              fst ` set props \<subseteq> set ks)))"

subsection \<open>Four features\<close>

text \<open>
  Four features: a sample package without a config; \<open>bar\<close> with one config entry that has
  no title; \<open>baz\<close> whose config entry has the empty string for a title; and a feature
  named \<open>use\<close> with a config.
\<close>

definition sample_feature :: feature where
  "sample_feature =
     \<lparr>pkg = Obj [(''name'', Str ''sample-hello''), (''nuclide'', Obj [(''packageType'', Str ''Atom'')])],
      dirname = [''nuclide'', ''pkg'', ''sample-hello''],
      useKeyPath = ''nuclide.use.sample-hello''\<rparr>"

definition bar_feature :: feature where
  "bar_feature =
     \<lparr>pkg = Obj [(''name'', Str ''bar''),
                 (''nuclide'', Obj [(''packageType'', Str ''Atom''),
                    (''config'', Obj [(''depth'', Obj [(''type'', Str ''integer'')])])])],
      dirname = [''nuclide'', ''pkg'', ''bar''],
      useKeyPath = ''nuclide.use.bar''\<rparr>"

definition baz_feature :: feature where
  "baz_feature =
     \<lparr>pkg = Obj [(''name'', Str ''baz''),
                 (''nuclide'', Obj [(''packageType'', Str ''Atom''),
                    (''config'', Obj [(''depth'', Obj [(''title'', Str []), (''type'', Str ''integer'')])])])],
      dirname = [''nuclide'', ''pkg'', ''baz''],
      useKeyPath = ''nuclide.use.baz''\<rparr>"

definition use_feature :: feature where
  "use_feature =
     \<lparr>pkg = Obj [(''name'', Str ''use''),
                 (''nuclide'', Obj [(''packageType'', Str ''Atom''),
                    (''config'', Obj [(''depth'', Obj [(''type'', Str ''integer'')])])])],
      dirname = [''nuclide'', ''pkg'', ''use''],
      useKeyPath = ''nuclide.use.use''\<rparr>"

definition example_features :: features where
  "example_features = [(''sample-hello'', sample_feature), (''bar'', bar_feature)]"

definition example_config :: "(string \<times> jsval) list" where
  "example_config =
     take 2 initial_config @
     [(''use'', Obj
         [(''type'', Str ''object''),
          (''collapsed'', Bool True),
          (''properties'', Obj
             [(''sample-hello'', Obj
                 [(''title'', Str (''Enable the '' @ [CHR 0x22] @ ''sample-hello'' @ [CHR 0x22] @ '' feature'')),
                  (''description'', Str []),
                  (''type'', Str ''boolean''),
                  (''default'', Bool False)]),
              (''bar'', Obj
                 [(''title'', Str (''Enable the '' @ [CHR 0x22] @ ''bar'' @ [CHR 0x22] @ '' feature'')),
                  (''description'', Str []),
                  (''type'', Str ''boolean''),
                  (''default'', Bool True)])])]),
      (''bar'', Obj
         [(''type'', Str ''object''),
          (''collapsed'', Bool True),
          (''properties'', Obj
             [(''depth'', Obj [(''type'', Str ''integer''), (''title'', Str ''depth'')])])])]"

section \<open>The editor around the loader\<close>

text \<open>
  The loader drives the editor through calls: on \<open>atom.packages\<close>, \<open>atom.config\<close>,
  \<open>atom.menu\<close>, \<open>localStorage\<close>, the window list and the disposables the editor hands out.
  Each call is recorded in a trace.  What a call returns, or throws, is the editor's
  business: it is a function of the calls made so far and of the call itself.  The
  editor keeps the callbacks given to \<open>atom.config.onDidChange\<close>, and calls them when the
  value at their key path changes.
\<close>

datatype menu_item = MenuItem (label: jsval) (role: jsval) (enabled: jsval) (submenu: "menu_item list")

text \<open>
  A disposable the loader holds: the error reporter, the menu it added, or what
  \<open>atom.config.onDidChange\<close> returned.  Every call of \<open>atom.config.onDidChange\<close> returns a
  new disposable, named here by the position of that call in the trace.
\<close>

datatype disposable =
    ErrorReporter
  | MenuDisposable
  | ConfigWatcher nat

text \<open>
  The function passed to \<open>atom.config.onDidChange\<close> on line 293: a closure that has
  captured \<open>name\<close> and \<open>feature\<close>.
\<close>

datatype callback = UseChanged string feature

datatype call =
    InstallErrorReporter
  | GetLoadedPackage string
  | GetCanDeferMainModuleRequireStorageKey
  | LocalStorageRemoveItem jsval
  | MenuAdd "menu_item list"
  | MenuUpdate
  | ConfigGet string
  | ActivatePackage "string list"
  | DeactivatePackage string jsval
  | ConfigOnDidChange string callback
  | FeatureConfigGet string
  | GetFirstWindowId
  | GetCurrentWindowId
  | AtomPackageDepsInstall string bool
  | ConsoleError string
  | Dispose disposable

datatype reply = Returns jsval | Throws js_error

text \<open>
  The editor: its replies, and how \<open>atom.menu.add\<close> merges items into the menu template.
  A reply is any value returned, or any value thrown.
\<close>

record host =
  reply :: "call list \<Rightarrow> call \<Rightarrow> reply"
  menu_merge :: "menu_item list \<Rightarrow> menu_item list \<Rightarrow> menu_item list"

text \<open>
  The state: the two module variables \<open>errorReporterDisposable\<close> and \<open>disposables\<close> (\<open>None\<close>
  for \<open>null\<close> or \<open>undefined\<close>), the array \<open>atom.menu.template\<close>, the callbacks the editor
  holds for \<open>atom.config.onDidChange\<close> (each with the position of the call that registered
  it and its key path), and the trace.
\<close>

record state =
  errorReporterDisposable :: "disposable option"
  disposables :: "disposable list option"
  template :: "menu_item list"
  observers :: "(nat \<times> string \<times> callback) list"
  trace :: "call list"

type_synonym 'a action = "state \<Rightarrow> (js_error + 'a) \<times> state"

definition ret :: "'a \<Rightarrow> 'a action" where
  "ret x = (\<lambda>s. (Inr x, s))"

definition throw :: "js_error \<Rightarrow> 'a action" where
  "throw err = (\<lambda>s. (Inl err, s))"

definition seq :: "'a action \<Rightarrow> ('a \<Rightarrow> 'b action) \<Rightarrow> 'b action" where
  "seq m f = (\<lambda>s. case m s of (Inl err, s') \<Rightarrow> (Inl err, s') | (Inr x, s') \<Rightarrow> f x s')"

text \<open>\<open>try { body } catch (err) { handler }\<close>.\<close>

definition try_catch :: "'a action \<Rightarrow> (js_error \<Rightarrow> 'a action) \<Rightarrow> 'a action" where
  "try_catch body handler =
     (\<lambda>s. case body s of (Inl err, s') \<Rightarrow> handler err s' | (Inr x, s') \<Rightarrow> (Inr x, s'))"

text \<open>
  What a call that returns does to the callbacks the editor holds: \<open>atom.config.onDidChange\<close>
  adds one, disposing of what it returned removes that one, and no other call changes
  them.  The number is the position of the call in the trace.
\<close>

fun after_call ::
  "call \<Rightarrow> nat \<Rightarrow> (nat \<times> string \<times> callback) list \<Rightarrow> (nat \<times> string \<times> callback) list" where
  "after_call (ConfigOnDidChange keyPath cb) n obs = obs @ [(n, keyPath, cb)]"
| "after_call (Dispose (ConfigWatcher m)) n obs = filter (\<lambda>ob. fst ob \<noteq> m) obs"
| "after_call c n obs = obs"

definition call_host :: "host \<Rightarrow> call \<Rightarrow> jsval action" where
  "call_host h c =
     (\<lambda>s. case reply h (trace s) c of
            Returns v \<Rightarrow>
              (Inr v, s\<lparr>trace := trace s @ [c],
                        observers := after_call c (length (trace s)) (observers s)\<rparr>)
          | Throws err \<Rightarrow> (Inl err, s\<lparr>trace := trace s @ [c]\<rparr>))"

text \<open>
  \<open>atom.config.onDidChange(keyPath, callback)\<close>: the disposable returned is the one of this
  call.
\<close>

definition config_onDidChange :: "host \<Rightarrow> string \<Rightarrow> callback \<Rightarrow> disposable action" where
  "config_onDidChange h keyPath cb =
     (\<lambda>s. case call_host h (ConfigOnDidChange keyPath cb) s of
            (Inl err, s') \<Rightarrow> (Inl err, s')
          | (Inr v, s') \<Rightarrow> (Inr (ConfigWatcher (length (trace s))), s'))"

text \<open>\<open>console.error(msg)\<close>, which does not throw.\<close>

definition console_error :: "string \<Rightarrow> unit action" where
  "console_error msg = (\<lambda>s. (Inr (), s\<lparr>trace := trace s @ [ConsoleError msg]\<rparr>))"

definition assert_that :: "bool \<Rightarrow> unit action" where
  "assert_that c = (\<lambda>s. (invariant c, s))"

text \<open>\<open>v != null\<close>.\<close>

definition not_null :: "jsval \<Rightarrow> bool" where
  "not_null v = (v \<noteq> Undefined \<and> v \<noteq> Null)"

text \<open>\<open>names.forEach(body)\<close> for a body that acts on the state.\<close>

fun forEach :: "('a \<Rightarrow> unit action) \<Rightarrow> 'a list \<Rightarrow> unit action" where
  "forEach body [] = ret ()"
| "forEach body (x # xs) = seq (body x) (\<lambda>u. forEach body xs)"

section \<open>Arrays: \<open>findIndex\<close> and \<open>splice\<close>\<close>

fun findIndex_from :: "nat \<Rightarrow> ('a \<Rightarrow> bool) \<Rightarrow> 'a list \<Rightarrow> int" where
  "findIndex_from i P [] = -1"
| "findIndex_from i P (x # xs) = (if P x then int i else findIndex_from (Suc i) P xs)"

definition findIndex :: "('a \<Rightarrow> bool) \<Rightarrow> 'a list \<Rightarrow> int" where
  "findIndex P xs = findIndex_from 0 P xs"

text \<open>
  The start of a \<open>splice\<close>: a negative start counts from the end, and the result is kept
  within the array.
\<close>

definition splice_start :: "int \<Rightarrow> nat \<Rightarrow> nat" where
  "splice_start start len =
     (if start < 0 then nat (max (int len + start) 0) else min (nat start) len)"

text \<open>\<open>xs.splice(start, count)\<close>: the removed elements and what is left of the array.\<close>

definition splice_delete :: "int \<Rightarrow> nat \<Rightarrow> 'a list \<Rightarrow> 'a list \<times> 'a list" where
  "splice_delete start count xs =
     (let a = splice_start start (length xs);
          n = min count (length xs - a)
      in (take n (drop a xs), take a xs @ drop (a + n) xs))"

text \<open>\<open>xs.splice(start, 0, x)\<close>.\<close>

definition splice_insert :: "int \<Rightarrow> 'a \<Rightarrow> 'a list \<Rightarrow> 'a list" where
  "splice_insert start x xs =
     (let a = splice_start start (length xs) in take a xs @ [x] @ drop a xs)"

section \<open>The life cycle: \<open>main.js\<close>, lines 233 to 352\<close>

definition is_window_or_help :: "menu_item \<Rightarrow> bool" where
  "is_window_or_help item = (role item = Str ''window'' \<or> role item = Str ''help'')"

definition is_Nuclide :: "menu_item \<Rightarrow> bool" where
  "is_Nuclide item = (label item = Str ''Nuclide'')"

text \<open>
  Lines 264 to 273, on the array: where the first item removed by \<open>splice\<close> is read, the
  array was not empty (it has an item with a role), so one item was removed.
\<close>

definition reorder_template :: "menu_item list \<Rightarrow> menu_item list" where
  "reorder_template t =
     (let insertIndex = findIndex is_window_or_help t in
      if insertIndex \<noteq> -1 then
        let nuclideIndex = findIndex is_Nuclide t;
            (removed, t1) = splice_delete nuclideIndex 1 t;
            newIndex = (if insertIndex > nuclideIndex then insertIndex - 1 else insertIndex)
        in case removed of
             menuItem # others \<Rightarrow> splice_insert newIndex menuItem t1
           | [] \<Rightarrow> t1
      else t)"

text \<open>Lines 263 to 275: the template is reordered in place, then the menu updated.\<close>

definition reorder_menu :: "host \<Rightarrow> unit action" where
  "reorder_menu h =
     (\<lambda>s. if findIndex is_window_or_help (template s) \<noteq> -1
          then seq (\<lambda>s. (Inr (), s\<lparr>template := reorder_template (template s)\<rparr>))
                 (\<lambda>u. seq (call_host h MenuUpdate) (\<lambda>v. ret ())) s
          else (Inr (), s))"

text \<open>The menu of lines 251 to 259; the version is that of the package's \<open>package.json\<close>.\<close>

definition Nuclide_menu :: "string \<Rightarrow> menu_item list" where
  "Nuclide_menu version =
     [MenuItem (Str ''Nuclide'') Undefined Undefined
        [MenuItem (Str (''Version '' @ version)) Undefined (Bool False) []]]"

text \<open>\<open>disposables.add(d)\<close>, after \<open>invariant(disposables != null)\<close> where the source has it.\<close>

definition disposables_add :: "disposable \<Rightarrow> unit action" where
  "disposables_add d =
     (\<lambda>s. case disposables s of
            None \<Rightarrow> (Inl (TypeError ''Cannot read property add''), s)
          | Some ds \<Rightarrow> (Inr (), s\<lparr>disposables := Some (ds @ [d])\<rparr>))"

text \<open>
  Lines 342 to 352.  The \<open>catch\<close> block reads \<open>err.message\<close> and converts it to a string
  inside the template literal; either may throw, and what they throw leaves the function.
\<close>

definition safeDeactivate :: "host \<Rightarrow> string \<Rightarrow> jsval \<Rightarrow> unit action" where
  "safeDeactivate h fname suppressSerialization =
     try_catch
       (seq (call_host h (GetLoadedPackage fname)) (\<lambda>pack.
          if not_null pack
          then seq (call_host h (DeactivatePackage fname suppressSerialization)) (\<lambda>v. ret ())
          else ret ()))
       (\<lambda>err.
          seq (\<lambda>s. (message err, s)) (\<lambda>m.
          seq (\<lambda>s. (ToString m, s)) (\<lambda>shown.
            console_error
              (''Error deactivating '' @ [CHR 0x22] @ fname @ [CHR 0x22] @ '': '' @ shown))))"

text \<open>The feature that \<open>features[name]\<close> yields inside a \<open>forEach\<close> over the names.\<close>

definition with_feature :: "features \<Rightarrow> string \<Rightarrow> (feature \<Rightarrow> unit action) \<Rightarrow> unit action" where
  "with_feature fs fname body =
     (case map_of fs fname of
        None \<Rightarrow> throw (TypeError ''Cannot read property of undefined'')
      | Some f \<Rightarrow> body f)"

text \<open>Lines 293 to 299: the callback of the watcher of one feature.\<close>

definition use_changed :: "host \<Rightarrow> string \<Rightarrow> feature \<Rightarrow> jsval \<Rightarrow> unit action" where
  "use_changed h fname f newValue =
     (if newValue = Bool True then seq (call_host h (ActivatePackage (dirname f))) (\<lambda>v. ret ())
      else if newValue = Bool False then safeDeactivate h fname Undefined
      else ret ())"

text \<open>
  Lines 234 to 261: the error reporter, the check that the package is loaded, the storage
  key, the composite disposable and the \<open>Nuclide\<close> menu.
\<close>

definition install_menu :: "host \<Rightarrow> string \<Rightarrow> unit action" where
  "install_menu h version =
     seq (\<lambda>s. if errorReporterDisposable s = None
              then seq (call_host h InstallErrorReporter)
                     (\<lambda>v s. (Inr (), s\<lparr>errorReporterDisposable := Some ErrorReporter\<rparr>)) s
              else (Inr (), s)) (\<lambda>u.
     seq (call_host h (GetLoadedPackage ''nuclide'')) (\<lambda>nuclidePack.
     seq (assert_that (not_null nuclidePack)) (\<lambda>u.
     seq (call_host h GetCanDeferMainModuleRequireStorageKey) (\<lambda>key.
     seq (call_host h (LocalStorageRemoveItem key)) (\<lambda>v.
     seq (\<lambda>s. (Inr (), s\<lparr>disposables := Some []\<rparr>)) (\<lambda>u.
     seq (call_host h (MenuAdd (Nuclide_menu version))) (\<lambda>v.
     seq (\<lambda>s. (Inr (), s\<lparr>template := menu_merge h (template s) (Nuclide_menu version)\<rparr>)) (\<lambda>u.
       disposables_add MenuDisposable))))))))"

text \<open>Lines 283 to 288: the features the configuration enables are activated.\<close>

definition activate_features :: "host \<Rightarrow> features \<Rightarrow> unit action" where
  "activate_features h fs =
     forEach (\<lambda>fname. with_feature fs fname (\<lambda>f.
        seq (call_host h (ConfigGet (useKeyPath f))) (\<lambda>v.
          if truthy v then seq (call_host h (ActivatePackage (dirname f))) (\<lambda>v. ret ())
          else ret ()))) (map fst fs)"

text \<open>Lines 291 to 302: one watcher for each feature's key path.\<close>

definition watch_features :: "host \<Rightarrow> features \<Rightarrow> unit action" where
  "watch_features h fs =
     forEach (\<lambda>fname. with_feature fs fname (\<lambda>f.
        seq (config_onDidChange h (useKeyPath f) (UseChanged fname f)) (\<lambda>watcher.
        seq (\<lambda>s. (invariant (disposables s \<noteq> None), s)) (\<lambda>u.
          disposables_add watcher)))) (map fst fs)"

text \<open>Lines 307 to 316: the recommended packages, installed from the first window only.\<close>

definition install_recommended :: "host \<Rightarrow> unit action" where
  "install_recommended h =
     seq (call_host h (FeatureConfigGet ''installRecommendedPackages'')) (\<lambda>install.
       if truthy install then
         seq (call_host h GetFirstWindowId) (\<lambda>firstWindowId.
         seq (call_host h GetCurrentWindowId) (\<lambda>currentWindowId.
           if firstWindowId = currentWindowId
           then seq (call_host h (AtomPackageDepsInstall ''nuclide'' False)) (\<lambda>v. ret ())
           else ret ()))
       else ret ())"

text \<open>Lines 233 to 317: \<open>activate()\<close>, its blocks in order.\<close>

definition activate :: "host \<Rightarrow> features \<Rightarrow> string \<Rightarrow> unit action" where
  "activate h fs version =
     seq (install_menu h version) (\<lambda>u.
     seq (reorder_menu h) (\<lambda>u.
     seq (activate_features h fs) (\<lambda>u.
     seq (watch_features h fs) (\<lambda>u.
       install_recommended h))))"

text \<open>
  \<open>disposables.dispose()\<close>: a composite disposable disposes of its members in the order
  they were added.
\<close>

definition dispose_all :: "host \<Rightarrow> disposable list \<Rightarrow> unit action" where
  "dispose_all h ds = forEach (\<lambda>d. seq (call_host h (Dispose d)) (\<lambda>v. ret ())) ds"

text \<open>Lines 319 to 331.\<close>

definition deactivate :: "host \<Rightarrow> features \<Rightarrow> unit action" where
  "deactivate h fs =
     seq (forEach (\<lambda>fname. safeDeactivate h fname (Bool True)) (map fst fs)) (\<lambda>u.
     seq (\<lambda>s. (invariant (disposables s \<noteq> None), s)) (\<lambda>u.
     seq (\<lambda>s. dispose_all h (case disposables s of None \<Rightarrow> [] | Some ds \<Rightarrow> ds) s) (\<lambda>u.
     seq (\<lambda>s. (Inr (), s\<lparr>disposables := None\<rparr>)) (\<lambda>u.
     seq (\<lambda>s. (invariant (errorReporterDisposable s \<noteq> None), s)) (\<lambda>u.
     seq (\<lambda>s. case errorReporterDisposable s of
                None \<Rightarrow> (Inr (), s)
              | Some d \<Rightarrow> seq (call_host h (Dispose d)) (\<lambda>v. ret ()) s) (\<lambda>u.
       (\<lambda>s. (Inr (), s\<lparr>errorReporterDisposable := None\<rparr>))))))))"

text \<open>
  The editor reports a change of the value at a key path: every callback it holds for
  that key path is called with the new value (the \<open>newValue\<close> of the event), in the order
  of registration.
\<close>

definition run_callback :: "host \<Rightarrow> callback \<Rightarrow> jsval \<Rightarrow> unit action" where
  "run_callback h cb newValue = (case cb of UseChanged fname f \<Rightarrow> use_changed h fname f newValue)"

definition config_did_change :: "host \<Rightarrow> string \<Rightarrow> jsval \<Rightarrow> unit action" where
  "config_did_change h keyPath newValue =
     (\<lambda>s. forEach (\<lambda>ob. run_callback h (snd ob) newValue)
            (filter (\<lambda>ob. fst ob = keyPath) (map snd (observers s))) s)"

subsection \<open>The traces as stated\<close>

text \<open>
  What the \<open>catch\<close> block of \<open>safeDeactivate\<close> adds to the trace: the logged message, when
  the thrown value has a message that converts to a string.
\<close>

definition logged :: "string \<Rightarrow> js_error \<Rightarrow> call list" where
  "logged fname err =
     (case bind (message err) ToString of
        Inr shown \<Rightarrow>
          [ConsoleError (''Error deactivating '' @ [CHR 0x22] @ fname @ [CHR 0x22] @ '': '' @ shown)]
      | Inl e \<Rightarrow> [])"

text \<open>
  What one call of \<open>safeDeactivate\<close> adds to the trace, after the calls \<open>tr\<close>: the query
  for the loaded package; if the package is loaded, the deactivation; and after a call
  that threw, what the \<open>catch\<close> block logs.
\<close>

definition attempt :: "host \<Rightarrow> call list \<Rightarrow> string \<Rightarrow> jsval \<Rightarrow> call list" where
  "attempt h tr fname suppress =
     GetLoadedPackage fname #
     (case reply h tr (GetLoadedPackage fname) of
        Throws err \<Rightarrow> logged fname err
      | Returns pack \<Rightarrow>
          if not_null pack then
            DeactivatePackage fname suppress #
            (case reply h (tr @ [GetLoadedPackage fname]) (DeactivatePackage fname suppress) of
               Throws err \<Rightarrow> logged fname err
             | Returns v \<Rightarrow> [])
          else [])"

fun attempts :: "host \<Rightarrow> call list \<Rightarrow> string list \<Rightarrow> jsval \<Rightarrow> call list" where
  "attempts h tr [] suppress = []"
| "attempts h tr (fname # names) suppress =
     attempt h tr fname suppress @ attempts h (tr @ attempt h tr fname suppress) names suppress"

definition is_GetLoadedPackage :: "call \<Rightarrow> bool" where
  "is_GetLoadedPackage c = (case c of GetLoadedPackage fname \<Rightarrow> True | _ \<Rightarrow> False)"

text \<open>An editor that throws only values whose message can be logged.\<close>

definition throws_loggable :: "host \<Rightarrow> bool" where
  "throws_loggable h \<longleftrightarrow>
     (\<forall>tr c err. reply h tr c = Throws err \<longrightarrow> (\<exists>shown. bind (message err) ToString = Inr shown))"

text \<open>The callback that line 293 registers for the feature \<open>fname\<close>, with its key path.\<close>

definition observer_of :: "features \<Rightarrow> string \<Rightarrow> (string \<times> callback) list" where
  "observer_of fs fname =
     (case map_of fs fname of
        None \<Rightarrow> []
      | Some f \<Rightarrow> [(useKeyPath f, UseChanged fname f)])"

text \<open>An action that leaves the template and the two module variables as they are.\<close>

definition keeps :: "'a action \<Rightarrow> bool" where
  "keeps m \<longleftrightarrow>
     (\<forall>s r s'. m s = (r, s') \<longrightarrow>
        template s' = template s \<and> disposables s' = disposables s \<and>
        errorReporterDisposable s' = errorReporterDisposable s)"

text \<open>An action that leaves the callbacks the editor holds as they are.\<close>

definition quiet :: "'a action \<Rightarrow> bool" where
  "quiet m \<longleftrightarrow> (\<forall>s r s'. m s = (r, s') \<longrightarrow> observers s' = observers s)"

subsection \<open>Two editors and three states\<close>

text \<open>
  An editor in which every package is loaded, deactivating the package \<open>bar\<close> throws the
  given value, the menu items added are appended to the template, and every other call
  returns \<open>undefined\<close> (a key path has no value, so no feature is activated at start).  In
  the first editor the value thrown is an \<open>Error\<close>, in the second it is \<open>null\<close>.
\<close>

definition host_throwing :: "js_error \<Rightarrow> host" where
  "host_throwing thrown =
     \<lparr>reply = (\<lambda>tr c. case c of
          GetLoadedPackage n \<Rightarrow> Returns (Obj [(''name'', Str n)])
        | DeactivatePackage n v \<Rightarrow>
            if n = ''bar'' then Throws thrown else Returns Undefined
        | _ \<Rightarrow> Returns Undefined),
      menu_merge = (\<lambda>t items. t @ items)\<rparr>"

definition example_host :: host where
  "example_host = host_throwing (Error ''service is gone'')"

definition null_host :: host where
  "null_host = host_throwing (Thrown Null)"

definition bar_observer :: "nat \<times> string \<times> callback" where
  "bar_observer = (6, ''nuclide.use.bar'', UseChanged ''bar'' bar_feature)"

definition example_state :: state where
  "example_state =
     \<lparr>errorReporterDisposable = Some ErrorReporter,
      disposables = Some [MenuDisposable, ConfigWatcher 6],
      template = [],
      observers = [bar_observer],
      trace = []\<rparr>"

text \<open>A state before \<open>activate()\<close>, with a menu template of four items.\<close>

definition File_item :: menu_item where
  "File_item = MenuItem (Str ''File'') Undefined Undefined []"

definition Edit_item :: menu_item where
  "Edit_item = MenuItem (Str ''Edit'') Undefined Undefined []"

definition Window_item :: menu_item where
  "Window_item = MenuItem (Str ''Window'') (Str ''window'') Undefined []"

definition Help_item :: menu_item where
  "Help_item = MenuItem (Str ''Help'') (Str ''help'') Undefined []"

definition loaded_state :: state where
  "loaded_state =
     \<lparr>errorReporterDisposable = Some ErrorReporter,
      disposables = None,
      template = [File_item, Edit_item, Window_item, Help_item],
      observers = [],
      trace = []\<rparr>"

definition Nuclide_item :: menu_item where
  "Nuclide_item =
     MenuItem (Str ''Nuclide'') Undefined Undefined
       [MenuItem (Str ''Version 0.2.0'') Undefined (Bool False) []]"

definition active_state :: state where
  "active_state =
     \<lparr>errorReporterDisposable = Some ErrorReporter,
      disposables = Some [MenuDisposable, ConfigWatcher 6],
      template = [File_item, Edit_item, Nuclide_item, Window_item, Help_item],
      observers = [bar_observer],
      trace =
        [GetLoadedPackage ''nuclide'',
         GetCanDeferMainModuleRequireStorageKey,
         LocalStorageRemoveItem Undefined,
         MenuAdd [Nuclide_item],
         MenuUpdate,
         ConfigGet ''nuclide.use.bar'',
         ConfigOnDidChange ''nuclide.use.bar'' (UseChanged ''bar'' bar_feature),
         FeatureConfigGet ''installRecommendedPackages'']\<rparr>"

section \<open>Pane item visibility: \<open>observePaneItemVisibility.js\<close>\<close>

text \<open>
  The workspace, as far as the function reads it: \<open>getPaneContainers\<close> is \<open>None\<close> when the
  workspace does not provide it, and otherwise yields the pane containers.
\<close>

record 'c workspace =
  getPaneContainers :: "'c list option"

datatype 'a notification = Next 'a | Complete

text \<open>
  What happens around the function.  In the editor: a pane is added to a container, with
  its active item (\<open>None\<close> for \<open>null\<close> or \<open>undefined\<close>); the active item of a pane changes; a
  pane is destroyed; an animation frame comes, on which the scheduler of \<open>debounceTime\<close>
  runs.  Among the callers: someone calls \<open>observePaneItemVisibility(item)\<close> and subscribes
  to the result; the subscriber that was the \<open>n\<close>-th to subscribe unsubscribes.
\<close>

datatype ('c, 'p, 'i) event =
    AddPane 'c 'p "'i option"
  | ActivateItem 'p "'i option"
  | DestroyPane 'p
  | AnimationFrame
  | Subscribe 'i
  | Unsubscribe nat

text \<open>
  A subscriber of \<open>observeActiveItems().map(...).distinctUntilChanged()\<close> (lines 29 to 31):
  the item it watches, whether it is still subscribed, the last value that
  \<open>distinctUntilChanged\<close> let through, and what it has received.
\<close>

record 'i subscriber =
  watched :: 'i
  subscribed :: bool
  lastValue :: "bool option"
  received :: "bool notification list"

text \<open>
  The editor's panes, each with its container and its active item, and the one pipeline
  that \<open>memoize\<close> keeps (lines 34 to 74): the \<open>Map\<close> created on line 64, which is the seed of
  \<open>scan\<close> for every subscription to the source and which the accumulator changes in place;
  the panes whose active item the source is observing; whether \<open>debounceTime\<close> holds a
  value for the next frame; and the subscribers, in the order they subscribed.  The
  source is subscribed to (\<open>share\<close>) while there is a subscriber.
\<close>

record ('c, 'p, 'i) world =
  panes :: "('p \<times> 'c \<times> 'i option) list"
  panesToActiveItem :: "('p \<times> 'i) list"
  observedPanes :: "'p list"
  scheduled :: bool
  subscribers :: "'i subscriber list"

definition new_world :: "('c, 'p, 'i) world" where
  "new_world =
     \<lparr>panes = [], panesToActiveItem = [], observedPanes = [], scheduled = False, subscribers = []\<rparr>"

definition connected :: "('c, 'p, 'i) world \<Rightarrow> bool" where
  "connected w = list_ex subscribed (subscribers w)"

text \<open>Lines 57 to 64: the accumulator of \<open>scan\<close>.\<close>

definition scan_accumulator :: "('p \<times> 'i) list \<Rightarrow> 'p \<times> 'i option \<Rightarrow> ('p \<times> 'i) list" where
  "scan_accumulator acc activation =
     (case activation of
        (pane, None) \<Rightarrow> AList.delete pane acc
      | (pane, Some item) \<Rightarrow> AList.update pane item acc)"

text \<open>
  An activation \<open>{pane, item}\<close> reaches \<open>scan\<close>, and its result \<open>debounceTime\<close>, which holds
  it for the next frame.
\<close>

definition item_activation :: "'p \<times> 'i option \<Rightarrow> ('c, 'p, 'i) world \<Rightarrow> ('c, 'p, 'i) world" where
  "item_activation a w =
     w\<lparr>panesToActiveItem := scan_accumulator (panesToActiveItem w) a, scheduled := True\<rparr>"

text \<open>
  Lines 40 to 51, for a pane that \<open>observePanes\<close> reports: its destruction and its active
  item are observed from now on, and \<open>observeActiveItem\<close> reports the current active item
  at once.
\<close>

definition observe_pane :: "'p \<Rightarrow> 'i option \<Rightarrow> ('c, 'p, 'i) world \<Rightarrow> ('c, 'p, 'i) world" where
  "observe_pane pane current w =
     item_activation (pane, current)
       (w\<lparr>observedPanes := pane # removeAll pane (observedPanes w)\<rparr>)"

text \<open>
  Lines 36 to 53, when the source is subscribed to: \<open>observePanes\<close> reports the panes that
  every container has, container by container.
\<close>

definition panes_of :: "'c \<Rightarrow> ('c, 'p, 'i) world \<Rightarrow> ('p \<times> 'i option) list" where
  "panes_of c w = map (\<lambda>(pane, c', current). (pane, current)) (filter (\<lambda>(pane, c', current). c' = c) (panes w))"

definition connect :: "'c list \<Rightarrow> ('c, 'p, 'i) world \<Rightarrow> ('c, 'p, 'i) world" where
  "connect containers w =
     foldl (\<lambda>w (pane, current). observe_pane pane current w) w
       (concat (map (\<lambda>c. panes_of c w) containers))"

text \<open>
  The last subscriber has left: the source is unsubscribed from, which ends the
  observation of the panes and cancels what \<open>debounceTime\<close> holds.  The \<open>Map\<close> stays as it is.
\<close>

definition disconnect :: "('c, 'p, 'i) world \<Rightarrow> ('c, 'p, 'i) world" where
  "disconnect w = w\<lparr>observedPanes := [], scheduled := False\<rparr>"

text \<open>
  Lines 30 and 31 for one subscriber, on the array of active items that the shared
  pipeline emits.
\<close>

definition on_next :: "'i list \<Rightarrow> 'i subscriber \<Rightarrow> 'i subscriber" where
  "on_next activeItems sub =
     (if subscribed sub then
        let visible = (watched sub \<in> set activeItems) in
        if lastValue sub = Some visible then sub
        else sub\<lparr>lastValue := Some visible, received := received sub @ [Next visible]\<rparr>
      else sub)"

definition subscribe :: "'c list \<Rightarrow> 'i \<Rightarrow> ('c, 'p, 'i) world \<Rightarrow> ('c, 'p, 'i) world" where
  "subscribe containers item w =
     (let w1 = w\<lparr>subscribers := subscribers w @
                  [\<lparr>watched = item, subscribed = True, lastValue = None, received = []\<rparr>]\<rparr>
      in if connected w then w1 else connect containers w1)"

definition unsubscribe :: "nat \<Rightarrow> ('c, 'p, 'i) world \<Rightarrow> ('c, 'p, 'i) world" where
  "unsubscribe n w =
     (if n < length (subscribers w) \<and> subscribed (subscribers w ! n) then
        let w1 = w\<lparr>subscribers := (subscribers w)[n := (subscribers w ! n)\<lparr>subscribed := False\<rparr>]\<rparr>
        in if connected w1 then w1 else disconnect w1
      else w)"

text \<open>
  One event, for the pane containers that \<open>getPaneContainers()\<close> returned.  A pane is added
  once; a change of active item is a change (the editor reports none when the item stays
  the same); the events of a pane reach the pipeline while the pane is observed; on an
  animation frame, what \<open>debounceTime\<close> holds is turned into the array of the values of the
  \<open>Map\<close> (line 71) and passed to every subscriber.
\<close>

definition step ::
  "'c list \<Rightarrow> ('c, 'p, 'i) world \<Rightarrow> ('c, 'p, 'i) event \<Rightarrow> ('c, 'p, 'i) world" where
  "step containers w ev =
     (case ev of
        AddPane c pane current \<Rightarrow>
          if pane \<in> fst ` set (panes w) then w
          else
            let w1 = w\<lparr>panes := panes w @ [(pane, c, current)]\<rparr> in
            if connected w \<and> c \<in> set containers then observe_pane pane current w1 else w1
      | ActivateItem pane i \<Rightarrow>
          (case map_of (panes w) pane of
             None \<Rightarrow> w
           | Some (c, current) \<Rightarrow>
               if current = i then w
               else
                 let w1 = w\<lparr>panes := AList.update pane (c, i) (panes w)\<rparr> in
                 if pane \<in> set (observedPanes w) then item_activation (pane, i) w1 else w1)
      | DestroyPane pane \<Rightarrow>
          if pane \<in> fst ` set (panes w) then
            let w1 = w\<lparr>panes := AList.delete pane (panes w)\<rparr> in
            if pane \<in> set (observedPanes w)
            then item_activation (pane, None)
                   (w1\<lparr>observedPanes := removeAll pane (observedPanes w)\<rparr>)
            else w1
          else w
      | AnimationFrame \<Rightarrow>
          if scheduled w
          then w\<lparr>scheduled := False,
                 subscribers := map (on_next (map snd (panesToActiveItem w))) (subscribers w)\<rparr>
          else w
      | Subscribe item \<Rightarrow> subscribe containers item w
      | Unsubscribe n \<Rightarrow> unsubscribe n w)"

definition world_after ::
  "'c list \<Rightarrow> ('c, 'p, 'i) world \<Rightarrow> ('c, 'p, 'i) event list \<Rightarrow> ('c, 'p, 'i) world" where
  "world_after containers w evs = foldl (step containers) w evs"

text \<open>
  Lines 18 to 32: what a subscriber of the returned observable receives, when it
  subscribes in the world \<open>w\<close> and the events \<open>evs\<close> follow.  Without \<open>getPaneContainers\<close> the
  observable is empty.  With no pane container, \<open>Observable.merge()\<close> completes at once, and
  so does everything built on it.
\<close>

definition observePaneItemVisibility ::
  "'c workspace \<Rightarrow> 'i \<Rightarrow> ('c, 'p, 'i) world \<Rightarrow> ('c, 'p, 'i) event list \<Rightarrow> bool notification list" where
  "observePaneItemVisibility ws item w evs =
     (case getPaneContainers ws of
        None \<Rightarrow> [Complete]
      | Some containers \<Rightarrow>
          if containers = [] then [Complete]
          else received (subscribers (world_after containers (subscribe containers item w) evs)
                          ! length (subscribers w)))"

subsection \<open>The active items, pane by pane\<close>

text \<open>
  The workspace's per-pane active items, as stated: what the panes of the containers
  show, a pane without an active item and a destroyed pane contributing nothing.
\<close>

definition active_items :: "'c list \<Rightarrow> ('c, 'p, 'i) world \<Rightarrow> 'i list" where
  "active_items containers w =
     concat (map (\<lambda>(pane, c, current).
                    case current of
                      Some i \<Rightarrow> if c \<in> set containers then [i] else []
                    | None \<Rightarrow> [])
               (panes w))"

text \<open>
  The \<open>Map\<close> stands for a look-up of the workspace (lines 55 and 56): the panes have
  distinct identities, and so have the keys of the \<open>Map\<close>; while the source is subscribed
  to, the panes observed are the panes of the containers and the entries of the \<open>Map\<close> are
  their active items; before that, the \<open>Map\<close> is empty and \<open>debounceTime\<close> holds nothing.
\<close>

definition agrees :: "'c list \<Rightarrow> ('c, 'p, 'i) world \<Rightarrow> bool" where
  "agrees containers w \<longleftrightarrow>
     distinct (map fst (panes w)) \<and> distinct (map fst (panesToActiveItem w)) \<and>
     (if connected w
      then set (observedPanes w) = {pane. \<exists>c i. (pane, c, i) \<in> set (panes w) \<and> c \<in> set containers}
         \<and> set (panesToActiveItem w) =
             {(pane, i). \<exists>c. (pane, c, Some i) \<in> set (panes w) \<and> c \<in> set containers}
      else panesToActiveItem w = [] \<and> observedPanes w = [] \<and> \<not> scheduled w)"

text \<open>
  A subscriber that has received values only, no two in a row the same, the last of
  them being the one \<open>distinctUntilChanged\<close> remembers.
\<close>

definition without_repeats :: "'i subscriber \<Rightarrow> bool" where
  "without_repeats sub \<longleftrightarrow>
     (\<exists>bs. received sub = map Next bs \<and> distinct_adj bs \<and>
           lastValue sub = (if bs = [] then None else Some (last bs)))"

text \<open>
  A workspace with one container.  Pane 1 shows the item \<open>x\<close>; a subscriber watches \<open>x\<close>,
  receives a value and unsubscribes; pane 1 is destroyed, and pane 2 opens on the item
  \<open>y\<close>.
\<close>

definition center_workspace :: "string workspace" where
  "center_workspace = \<lparr>getPaneContainers = Some [''center'']\<rparr>"

definition stale_history :: "(string, nat, string) event list" where
  "stale_history =
     [AddPane ''center'' 1 (Some ''x''), Subscribe ''x'', AnimationFrame, Unsubscribe 0,
      DestroyPane 1, AddPane ''center'' 2 (Some ''y'')]"

definition stale_world :: "(string, nat, string) world" where
  "stale_world = world_after [''center''] new_world stale_history"

section \<open>Properties\<close>

subsection \<open>Properties of the provider\<close>

lemma set_foldl_Set_add: "set (foldl Set_add acc xs) = set acc \<union> set xs"
  by (induction xs arbitrary: acc) (auto simp: Set_add_def)

lemma distinct_foldl_Set_add: "distinct acc \<Longrightarrow> distinct (foldl Set_add acc xs)"
  by (induction xs arbitrary: acc) (auto simp: Set_add_def)

lemma set_new_Set: "set (new_Set xs) = set xs"
  by (simp add: new_Set_def set_foldl_Set_add)

lemma distinct_new_Set: "distinct (new_Set xs)"
  by (simp add: new_Set_def distinct_foldl_Set_add)

text \<open>
  Claim C1.  For every host, device and process, \<open>run\<close> is one delegated call: its outcome
  and its effect on the world are those of \<open>killProcess(device, proc.name)\<close> on the service
  the factory gives for the host; the process is identified by its name, so its pid does not
  matter; and on the instrumented service the request log grows by exactly that one request.
\<close>

theorem run_delegates_killProcess:
  "run (ATDeviceStopPackageProvider ty rpcFactory) host device proc w
     = killProcess (rpcFactory host) device (name proc) w
   \<and> run (ATDeviceStopPackageProvider ty rpcFactory) host device (proc\<lparr>pid := q\<rparr>) w
     = run (ATDeviceStopPackageProvider ty rpcFactory) host device proc w
   \<and> run (ATDeviceStopPackageProvider ty logging_service) host device proc log
     = ((), log @ [KillProcessRequest host device (name proc)])"
  by (simp add: run_def ATDeviceStopPackageProvider_def logging_service_def)

text \<open>
  Claim C8.  Whatever the constructor arguments, \<open>getName\<close> is \<open>'Stop package'\<close> and
  \<open>getTaskType\<close> is \<open>'STOP_PACKAGE'\<close>, while \<open>getType\<close> is the type string given at
  construction.
\<close>

theorem provider_getters:
  "getName (ATDeviceStopPackageProvider ty rpcFactory) = ''Stop package''
   \<and> getTaskType (ATDeviceStopPackageProvider ty rpcFactory) = ''STOP_PACKAGE''
   \<and> getType (ATDeviceStopPackageProvider ty rpcFactory) = ty"
  by (simp add: getName_def getTaskType_def getType_def ATDeviceStopPackageProvider_def)

text \<open>
  Claim C9.  \<open>isSupported\<close> is true of every process, and \<open>getSupportedPIDs\<close> resolves to a
  set (a duplicate-free collection) holding exactly the pids of the given processes: no
  process is filtered out.
\<close>

theorem getSupportedPIDs_all:
  "isSupported this proc
   \<and> getSupportedPIDs this host device procs = Fulfilled (new_Set (map pid procs))
   \<and> set (new_Set (map pid procs)) = pid ` set procs
   \<and> distinct (new_Set (map pid procs))"
  by (simp add: isSupported_def getSupportedPIDs_def set_new_Set distinct_new_Set)

subsection \<open>Properties of feature discovery\<close>

lemma bind_Inr_iff: "bind m f = Inr y \<longleftrightarrow> (\<exists>x. m = Inr x \<and> f x = Inr y)"
  by (cases m) (simp_all add: bind_def)

lemma indexOf_from_sublist: "indexOf_from i s t \<noteq> -1 \<longleftrightarrow> sublist t s"
proof (induction s arbitrary: i)
  case Nil
  then show ?case by auto
next
  case (Cons c cs)
  then show ?case by (auto simp: sublist_Cons_right)
qed

lemma indexOf_sublist: "indexOf s t = -1 \<longleftrightarrow> \<not> sublist t s"
  using indexOf_from_sublist[of 0 s t] by (auto simp: indexOf_def)

lemma sublist_dot: "sublist ''.'' item \<longleftrightarrow> CHR ''.'' \<in> set item"
  by (induction item) (auto simp: sublist_Cons_right)

lemma indexOf_dot: "indexOf item ''.'' = -1 \<longleftrightarrow> CHR ''.'' \<notin> set item"
  by (simp add: indexOf_sublist sublist_dot)

lemma js_get_falsy: "\<not> truthy v \<Longrightarrow> js_get v k \<noteq> Inr (Str s)"
  by (cases v) (auto simp: js_get_def split: option.splits)

lemma path_join_plain: "CHR ''.'' \<notin> set s \<Longrightarrow> path_join p s = p @ [s]"
  by (auto simp: path_join_def)

lemma path_join_package_json: "path_join p ''package.json'' = p @ [''package.json'']"
  by (simp add: path_join_def)

lemma readFileSync_Inr: "readFileSync root p = Inr src \<longleftrightarrow> lookup_path root p = Inr (File src)"
proof (cases "lookup_path root p")
  case (Inl err)
  then show ?thesis by (simp add: readFileSync_def bind_def)
next
  case (Inr n)
  then show ?thesis by (cases n) (auto simp: readFileSync_def bind_def)
qed

lemma lookup_path_error: "lookup_path root p = Inl err \<Longrightarrow> \<exists>c m. err = SystemError c m"
  by (induction root p rule: lookup_path.induct) (auto split: option.splits)

lemma stat_ENOENT:
  assumes "bind (statSync root p) (\<lambda>stat. invariant (isFile stat)) = Inl err"
    and "code err = Some ''ENOENT''"
  shows "\<exists>m. lookup_path root p = Inl (SystemError ''ENOENT'' m)"
proof (cases "lookup_path root p")
  case (Inl e)
  with assms(1) have "err = e" by (simp add: statSync_def bind_def)
  moreover from lookup_path_error[OF Inl] obtain c m where "e = SystemError c m" by blast
  ultimately show ?thesis using assms(2) Inl by simp
next
  case (Inr n)
  with assms(1) have "err = AssertionError ''Invariant violation''"
    by (cases n) (auto simp: statSync_def bind_def invariant_def)
  with assms(2) show ?thesis by simp
qed

lemma stat_ok:
  "lookup_path root p = Inr (File src) \<Longrightarrow>
   bind (statSync root p) (\<lambda>stat. invariant (isFile stat)) = Inr ()"
  by (simp add: statSync_def bind_def invariant_def)

lemma declares_Atom_iff:
  "declares_Atom p \<longleftrightarrow>
   (\<exists>nuc. js_get p ''nuclide'' = Inr nuc \<and> js_get nuc ''packageType'' = Inr (Str ''Atom''))"
  by (cases "js_get p ''nuclide''") (simp_all add: declares_Atom_def)

lemma declares_Atom_truthy:
  "js_get p ''nuclide'' = Inr nuc \<Longrightarrow> declares_Atom p \<Longrightarrow> truthy nuc"
  using js_get_falsy by (auto simp: declares_Atom_iff)

text \<open>The decision of lines 127 to 135 on a parsed package.\<close>

lemma package_decision_Some:
  "register_package p dir = Inr (Some kf)
   \<longleftrightarrow> declares_Atom p \<and>
       (\<exists>nm. js_get p ''name'' = Inr nm \<and> truthy nm \<and> new_feature p dir = Inr kf)"
proof (cases "js_get p ''nuclide''")
  case (Inl err)
  then show ?thesis by (simp add: register_package_def bind_def declares_Atom_def)
next
  case nuc: (Inr nuc)
  show ?thesis
  proof (cases "truthy nuc")
    case False
    then have "\<not> declares_Atom p" using declares_Atom_truthy nuc by blast
    with False nuc show ?thesis by (simp add: register_package_def bind_def)
  next
    case True
    show ?thesis
    proof (cases "js_get nuc ''packageType''")
      case (Inl err)
      with True nuc show ?thesis by (simp add: register_package_def bind_def declares_Atom_def)
    next
      case (Inr t)
      with True nuc show ?thesis
        by (cases "js_get p ''name''")
           (auto simp: register_package_def bind_def declares_Atom_def invariant_def split: sum.splits)
    qed
  qed
qed

lemma package_decision_None:
  "register_package p dir = Inr None
   \<Longrightarrow> \<not> declares_Atom p"
proof (cases "js_get p ''nuclide''")
  case (Inl err)
  then show ?thesis by (simp add: declares_Atom_def)
next
  case nuc: (Inr nuc)
  assume a: "register_package p dir = Inr None"
  show ?thesis
  proof (cases "truthy nuc")
    case False
    then show ?thesis using declares_Atom_truthy nuc by blast
  next
    case True
    with a nuc show ?thesis
      by (cases "js_get nuc ''packageType''"; cases "js_get p ''name''")
         (auto simp: register_package_def bind_def declares_Atom_def invariant_def split: sum.splits if_splits)
  qed
qed

lemma read_package_Some:
  "read_package e dir filename = Inr (Some kf) \<longleftrightarrow>
   (\<exists>src p nm. lookup_path (fs_root e) filename = Inr (File src) \<and> sublist quoted_Atom src \<and>
      JSON_parse e src = Inr p \<and> declares_Atom p \<and> js_get p ''name'' = Inr nm \<and> truthy nm \<and>
      new_feature p dir = Inr kf)"
proof (cases "readFileSync (fs_root e) filename")
  case (Inl err)
  then have "\<And>src. lookup_path (fs_root e) filename \<noteq> Inr (File src)"
    using readFileSync_Inr[of "fs_root e" filename] by auto
  with Inl show ?thesis by (simp add: read_package_def bind_def)
next
  case src: (Inr src)
  then have l: "lookup_path (fs_root e) filename = Inr (File src)"
    by (simp add: readFileSync_Inr)
  show ?thesis
  proof (cases "sublist quoted_Atom src")
    case False
    with src l show ?thesis by (simp add: read_package_def bind_def indexOf_sublist)
  next
    case True
    show ?thesis
    proof (cases "JSON_parse e src")
      case (Inl err)
      with True src l show ?thesis by (simp add: read_package_def bind_def indexOf_sublist)
    next
      case (Inr p)
      have "read_package e dir filename = Inr (Some kf) \<longleftrightarrow>
            declares_Atom p \<and>
            (\<exists>nm. js_get p ''name'' = Inr nm \<and> truthy nm \<and> new_feature p dir = Inr kf)"
        using True src Inr package_decision_Some[of p dir kf]
        by (simp add: read_package_def bind_def indexOf_sublist)
      with True l Inr show ?thesis by auto
    qed
  qed
qed

lemma read_package_None:
  "read_package e dir filename = Inr None \<Longrightarrow>
   (\<exists>src. lookup_path (fs_root e) filename = Inr (File src) \<and>
      (sublist quoted_Atom src \<longrightarrow> (\<exists>p. JSON_parse e src = Inr p \<and> \<not> declares_Atom p)))"
proof (cases "readFileSync (fs_root e) filename")
  case (Inl err)
  assume "read_package e dir filename = Inr None"
  with Inl show ?thesis by (simp add: read_package_def bind_def)
next
  case src: (Inr src)
  assume a: "read_package e dir filename = Inr None"
  from src have l: "lookup_path (fs_root e) filename = Inr (File src)"
    by (simp add: readFileSync_Inr)
  show ?thesis
  proof (cases "sublist quoted_Atom src")
    case False
    with l show ?thesis by simp
  next
    case True
    show ?thesis
    proof (cases "JSON_parse e src")
      case (Inl err)
      with a True src show ?thesis by (simp add: read_package_def bind_def indexOf_sublist)
    next
      case (Inr p)
      with a True src have "\<not> declares_Atom p"
        using package_decision_None[of p dir]
        by (simp add: read_package_def bind_def indexOf_sublist)
      with l Inr show ?thesis by simp
    qed
  qed
qed

lemma new_feature_Inr:
  "new_feature p d = Inr (k, f) \<longleftrightarrow>
   (\<exists>nm. js_get p ''name'' = Inr nm \<and> ToString nm = Inr k \<and>
      f = \<lparr>pkg = p, dirname = d, useKeyPath = ''nuclide.use.'' @ k\<rparr>)"
  by (auto simp: new_feature_def bind_Inr_iff)

lemma read_feature_Some:
  "read_feature e item = Inr (Some kf) \<longleftrightarrow>
   (\<exists>p nm. claimed_package e item = Some p \<and> js_get p ''name'' = Inr nm \<and> truthy nm \<and>
      new_feature p (FEATURES_DIR e @ [item]) = Inr kf)"
proof (cases "CHR ''.'' \<in> set item")
  case True
  then show ?thesis by (simp add: read_feature_def claimed_package_def indexOf_dot)
next
  case False
  let ?dir = "FEATURES_DIR e @ [item]"
  let ?file = "FEATURES_DIR e @ [item, ''package.json'']"
  let ?stat = "bind (statSync (fs_root e) ?file) (\<lambda>stat. invariant (isFile stat))"
  have app: "(FEATURES_DIR e @ [item]) @ [''package.json''] = FEATURES_DIR e @ [item, ''package.json'']"
    by simp
  have rf: "read_feature e item =
      (case ?stat of
         Inl err \<Rightarrow> if code err = Some ''ENOENT'' then Inr None else read_package e ?dir ?file
       | Inr u \<Rightarrow> read_package e ?dir ?file)"
    unfolding read_feature_def Let_def path_join_package_json path_join_plain[OF False] app
    using False by (simp add: indexOf_dot)
  have cp: "\<And>p. claimed_package e item = Some p \<longleftrightarrow>
      (\<exists>src. lookup_path (fs_root e) ?file = Inr (File src) \<and> sublist quoted_Atom src \<and>
         JSON_parse e src = Inr p \<and> declares_Atom p)"
    using False by (auto simp: claimed_package_def split: sum.splits node.splits if_splits)
  show ?thesis
  proof
    assume a: "read_feature e item = Inr (Some kf)"
    then have "read_package e ?dir ?file = Inr (Some kf)"
      unfolding rf by (auto split: sum.splits if_splits)
    then show "\<exists>p nm. claimed_package e item = Some p \<and> js_get p ''name'' = Inr nm \<and> truthy nm \<and>
      new_feature p (FEATURES_DIR e @ [item]) = Inr kf"
      unfolding read_package_Some cp by blast
  next
    assume "\<exists>p nm. claimed_package e item = Some p \<and> js_get p ''name'' = Inr nm \<and> truthy nm \<and>
      new_feature p (FEATURES_DIR e @ [item]) = Inr kf"
    then obtain p nm src where
      l: "lookup_path (fs_root e) ?file = Inr (File src)" and
      r: "sublist quoted_Atom src" "JSON_parse e src = Inr p" "declares_Atom p"
         "js_get p ''name'' = Inr nm" "truthy nm" "new_feature p ?dir = Inr kf"
      unfolding cp by blast
    from l have "?stat = Inr ()" by (rule stat_ok)
    moreover from l r have "read_package e ?dir ?file = Inr (Some kf)"
      unfolding read_package_Some by blast
    ultimately show "read_feature e item = Inr (Some kf)"
      unfolding rf by simp
  qed
qed

lemma read_feature_None:
  assumes "read_feature e item = Inr None"
  shows "claimed_package e item = None"
proof (cases "CHR ''.'' \<in> set item")
  case True
  then show ?thesis by (simp add: claimed_package_def)
next
  case False
  let ?dir = "FEATURES_DIR e @ [item]"
  let ?file = "FEATURES_DIR e @ [item, ''package.json'']"
  let ?stat = "bind (statSync (fs_root e) ?file) (\<lambda>stat. invariant (isFile stat))"
  have app: "(FEATURES_DIR e @ [item]) @ [''package.json''] = FEATURES_DIR e @ [item, ''package.json'']"
    by simp
  have rf: "read_feature e item =
      (case ?stat of
         Inl err \<Rightarrow> if code err = Some ''ENOENT'' then Inr None else read_package e ?dir ?file
       | Inr u \<Rightarrow> read_package e ?dir ?file)"
    unfolding read_feature_def Let_def path_join_package_json path_join_plain[OF False] app
    using False by (simp add: indexOf_dot)
  from assms have
    "(\<exists>err. ?stat = Inl err \<and> code err = Some ''ENOENT'') \<or> read_package e ?dir ?file = Inr None"
    unfolding rf by (auto split: sum.splits if_splits)
  then show ?thesis
  proof
    assume "\<exists>err. ?stat = Inl err \<and> code err = Some ''ENOENT''"
    then obtain m where "lookup_path (fs_root e) ?file = Inl (SystemError ''ENOENT'' m)"
      using stat_ENOENT by blast
    then show ?thesis using False by (simp add: claimed_package_def)
  next
    assume "read_package e ?dir ?file = Inr None"
    from read_package_None[OF this] show ?thesis
      using False by (auto simp: claimed_package_def)
  qed
qed

lemma set_obj_set: "set (obj_set kvs k v) \<subseteq> insert (k, v) (set kvs)"
proof -
  have "set (AList.update k v kvs) \<subseteq> insert (k, v) (set kvs)"
    by (induction kvs) auto
  then show ?thesis by (auto simp: obj_set_def)
qed

lemma keys_obj_set:
  "fst ` set (obj_set kvs k v) = (if k = ''__proto__'' then fst ` set kvs else insert k (fst ` set kvs))"
  by (simp add: obj_set_def dom_update)

lemma map_of_obj_set:
  "map_of (obj_set kvs k v) = (if k = ''__proto__'' then map_of kvs else (map_of kvs)(k \<mapsto> v))"
  by (simp add: obj_set_def update_conv')

lemma distinct_obj_set: "distinct (map fst kvs) \<Longrightarrow> distinct (map fst (obj_set kvs k v))"
  by (simp add: obj_set_def distinct_update)

lemma forEach_item_Inr:
  assumes "forEach_item body items fs0 = Inr fs"
  shows "(\<forall>item\<in>set items. \<exists>r. body item = Inr r)
       \<and> fst ` set fs = fst ` set fs0 \<union>
           {k. k \<noteq> ''__proto__'' \<and> (\<exists>item\<in>set items. \<exists>f. body item = Inr (Some (k, f)))}
       \<and> (\<forall>(k, f)\<in>set fs. (k, f) \<in> set fs0 \<or> (\<exists>item\<in>set items. body item = Inr (Some (k, f))))"
  using assms
proof (induction items arbitrary: fs0)
  case Nil
  then show ?case by auto
next
  case (Cons item items)
  from Cons.prems obtain r where r: "body item = Inr r"
    and rest: "forEach_item body items (case r of None \<Rightarrow> fs0 | Some (k, v) \<Rightarrow> obj_set fs0 k v) = Inr fs"
    by (auto simp: bind_Inr_iff)
  note ih = Cons.IH[OF rest]
  show ?case
  proof (cases r)
    case None
    with ih r show ?thesis by (auto split: prod.splits)
  next
    case (Some kf)
    obtain k v where kf: "kf = (k, v)" by (cases kf)
    from ih have ih1: "\<forall>item\<in>set items. \<exists>r. body item = Inr r"
      and ih2: "fst ` set fs = fst ` set (obj_set fs0 k v) \<union>
           {k. k \<noteq> ''__proto__'' \<and> (\<exists>item\<in>set items. \<exists>f. body item = Inr (Some (k, f)))}"
      and ih3: "\<forall>(k', f)\<in>set fs. (k', f) \<in> set (obj_set fs0 k v) \<or>
           (\<exists>item\<in>set items. body item = Inr (Some (k', f)))"
      unfolding Some kf by simp_all
    have 1: "\<forall>i\<in>set (item # items). \<exists>r. body i = Inr r"
      using ih1 r by simp
    have 2: "fst ` set fs = fst ` set fs0 \<union>
           {k. k \<noteq> ''__proto__'' \<and> (\<exists>i\<in>set (item # items). \<exists>f. body i = Inr (Some (k, f)))}"
      unfolding ih2 keys_obj_set using r Some kf by auto
    have 3: "\<forall>(k', f)\<in>set fs. (k', f) \<in> set fs0 \<or>
           (\<exists>i\<in>set (item # items). body i = Inr (Some (k', f)))"
      using ih3 set_obj_set[of fs0 k v] r Some kf by fastforce
    from 1 2 3 show ?thesis by blast
  qed
qed

lemma forEach_item_distinct:
  assumes "forEach_item body items fs0 = Inr fs" and "distinct (map fst fs0)"
  shows "distinct (map fst fs)"
  using assms
proof (induction items arbitrary: fs0)
  case Nil
  then show ?case by simp
next
  case (Cons item items)
  from Cons.prems(1) obtain r where
    rest: "forEach_item body items (case r of None \<Rightarrow> fs0 | Some (k, v) \<Rightarrow> obj_set fs0 k v) = Inr fs"
    by (auto simp: bind_Inr_iff)
  have "distinct (map fst (case r of None \<Rightarrow> fs0 | Some (k, v) \<Rightarrow> obj_set fs0 k v))"
    using Cons.prems(2) by (auto simp: distinct_obj_set split: option.splits)
  from Cons.IH[OF rest this] show ?case .
qed

lemma forEach_item_snoc:
  "forEach_item body (items @ [x]) fs0 =
     bind (forEach_item body items fs0) (\<lambda>fs.
       bind (body x) (\<lambda>r. Inr (case r of None \<Rightarrow> fs | Some (k, v) \<Rightarrow> obj_set fs k v)))"
proof (induction items arbitrary: fs0)
  case Nil
  then show ?case by (cases "body x") (simp_all add: bind_def)
next
  case (Cons item items)
  then show ?case by (cases "body item") (simp_all add: bind_def)
qed

lemma forEach_item_last:
  assumes "forEach_item body items [] = Inr fs" and "k \<noteq> ''__proto__''"
  shows "map_of fs k = Some f \<longleftrightarrow>
         (\<exists>n<length items. body (items ! n) = Inr (Some (k, f)) \<and>
            (\<forall>m<length items. n < m \<longrightarrow> (\<forall>f'. body (items ! m) \<noteq> Inr (Some (k, f')))))"
  using assms(1)
proof (induction items arbitrary: fs rule: rev_induct)
  case Nil
  then show ?case by simp
next
  case (snoc x items)
  from snoc.prems obtain fs1 r where
    fs1: "forEach_item body items [] = Inr fs1" and r: "body x = Inr r"
    and fs: "fs = (case r of None \<Rightarrow> fs1 | Some (k, v) \<Rightarrow> obj_set fs1 k v)"
    unfolding forEach_item_snoc by (auto simp: bind_Inr_iff)
  note ih = snoc.IH[OF fs1]
  let ?P = "\<lambda>its n. body (its ! n) = Inr (Some (k, f)) \<and>
            (\<forall>m<length its. n < m \<longrightarrow> (\<forall>f'. body (its ! m) \<noteq> Inr (Some (k, f'))))"
  have lastk: "(\<exists>n<length (items @ [x]). ?P (items @ [x]) n) \<longleftrightarrow>
      (if \<exists>f'. r = Some (k, f') then r = Some (k, f) else (\<exists>n<length items. ?P items n))"
  proof (cases "\<exists>f'. r = Some (k, f')")
    case True
    then obtain f' where f': "r = Some (k, f')" by blast
    show ?thesis
    proof
      assume "\<exists>n<length (items @ [x]). ?P (items @ [x]) n"
      then obtain n where n: "n < length (items @ [x])" and P: "?P (items @ [x]) n" by blast
      have "n = length items"
      proof (rule ccontr)
        assume "n \<noteq> length items"
        with n have "n < length items" by simp
        with P have "\<forall>m<length (items @ [x]). n < m \<longrightarrow>
            (\<forall>f'. body ((items @ [x]) ! m) \<noteq> Inr (Some (k, f')))" by blast
        from this[rule_format, of "length items" f'] \<open>n < length items\<close>
        have "body x \<noteq> Inr (Some (k, f'))" by simp
        with r f' show False by simp
      qed
      with P r have "r = Some (k, f)" by simp
      with True show "if \<exists>f'. r = Some (k, f') then r = Some (k, f) else (\<exists>n<length items. ?P items n)"
        by simp
    next
      assume "if \<exists>f'. r = Some (k, f') then r = Some (k, f) else (\<exists>n<length items. ?P items n)"
      with True have "r = Some (k, f)" by simp
      with r have "?P (items @ [x]) (length items)" by simp
      then show "\<exists>n<length (items @ [x]). ?P (items @ [x]) n" by (intro exI[of _ "length items"]) simp
    qed
  next
    case False
    with r have nx: "\<And>f'. body x \<noteq> Inr (Some (k, f'))" by auto
    have "(\<exists>n<length (items @ [x]). ?P (items @ [x]) n) \<longleftrightarrow> (\<exists>n<length items. ?P items n)"
    proof
      assume "\<exists>n<length (items @ [x]). ?P (items @ [x]) n"
      then obtain n where n: "n < length (items @ [x])" and P: "?P (items @ [x]) n" by blast
      have nl: "n < length items"
      proof (rule ccontr)
        assume "\<not> n < length items"
        with n have "n = length items" by simp
        with P nx show False by simp
      qed
      have "?P items n"
      proof (intro conjI allI impI)
        from P nl show "body (items ! n) = Inr (Some (k, f))" by (simp add: nth_append)
      next
        fix m f' assume m: "m < length items" "n < m"
        with P have "body ((items @ [x]) ! m) \<noteq> Inr (Some (k, f'))" by simp
        with m show "body (items ! m) \<noteq> Inr (Some (k, f'))" by (simp add: nth_append)
      qed
      with nl show "\<exists>n<length items. ?P items n" by blast
    next
      assume "\<exists>n<length items. ?P items n"
      then obtain n where nl: "n < length items" and P: "?P items n" by blast
      have "?P (items @ [x]) n"
      proof (intro conjI allI impI)
        from P nl show "body ((items @ [x]) ! n) = Inr (Some (k, f))" by (simp add: nth_append)
      next
        fix m f' assume m: "m < length (items @ [x])" "n < m"
        show "body ((items @ [x]) ! m) \<noteq> Inr (Some (k, f'))"
        proof (cases "m < length items")
          case True
          with P m show ?thesis by (simp add: nth_append)
        next
          case False
          with m have "m = length items" by simp
          with nx show ?thesis by simp
        qed
      qed
      with nl show "\<exists>n<length (items @ [x]). ?P (items @ [x]) n"
        by (intro exI[of _ n]) simp
    qed
    with False show ?thesis by simp
  qed
  have "map_of fs k = Some f \<longleftrightarrow>
      (if \<exists>f'. r = Some (k, f') then r = Some (k, f) else map_of fs1 k = Some f)"
  proof (cases r)
    case None
    with fs show ?thesis by simp
  next
    case (Some kf)
    obtain k' v where kf: "kf = (k', v)" by (cases kf)
    with Some fs have "fs = obj_set fs1 k' v" by simp
    then show ?thesis using Some kf assms(2) by (auto simp: map_of_obj_set)
  qed
  with ih lastk show ?case by simp
qed

lemma nameless_claimed: "claimed_package nameless_env ''foo'' = Some nameless_package"
  by (simp add: claimed_package_def nameless_env_def example_env_def FEATURES_DIR_def path_join_def
      example_parse_def nameless_text_def quoted_Atom_def sublist_code declares_Atom_def
      nameless_package_def js_get_def)

lemma nameless_read: "read_feature nameless_env ''foo'' = Inl (AssertionError ''Invariant violation'')"
  by (simp add: read_feature_def nameless_env_def example_env_def FEATURES_DIR_def path_join_def
      example_parse_def nameless_text_def quoted_Atom_def indexOf_def bind_def statSync_def
      readFileSync_def read_package_def register_package_def invariant_def
      nameless_package_def js_get_def)

text \<open>
  Claim C2, as amended.  When the scan of the \<open>pkg\<close> directory runs to completion, the
  loader reaches the assignment \<open>features[pkg.name] = ...\<close> for an entry if and only if the
  entry's name has no \<open>.\<close>, it contains a file \<open>package.json\<close> whose text contains \<open>"Atom"\<close>,
  and the parsed package declares \<open>nuclide.packageType\<close> equal to \<open>'Atom'\<close>; what it assigns
  is the stated feature of the entry; and every such package has a truthy name (with one
  that has none, the scan does not run to completion).  The keys of the resulting table
  are the names (as strings) of those packages; a key holds the stated feature of the
  last entry of the listing that has this name; every feature in the table is stored
  under its package's name, with the key path \<open>nuclide.use.<name>\<close> and the directory of
  its entry.  The name \<open>__proto__\<close> is left aside.
\<close>

theorem discovery_registers_claimed_packages:
  assumes items: "readdirSync (fs_root e) (FEATURES_DIR e) = Inr items"
    and completes: "discover_pkg e = Inr fs"
  shows "(\<forall>item\<in>set items.
            (\<exists>kf. read_feature e item = Inr (Some kf)) \<longleftrightarrow> claimed_package e item \<noteq> None)
       \<and> (\<forall>item\<in>set items. \<forall>kf.
            read_feature e item = Inr (Some kf) \<longleftrightarrow> stated_feature e item = Some kf)
       \<and> (\<forall>item\<in>set items. \<forall>p. claimed_package e item = Some p \<longrightarrow>
            (\<exists>nm. js_get p ''name'' = Inr nm \<and> truthy nm))
       \<and> fst ` set fs =
           {k. k \<noteq> ''__proto__'' \<and>
               (\<exists>item\<in>set items. \<exists>p nm. claimed_package e item = Some p \<and>
                  js_get p ''name'' = Inr nm \<and> ToString nm = Inr k)}
       \<and> distinct (map fst fs)
       \<and> (\<forall>k f. k \<noteq> ''__proto__'' \<longrightarrow>
            (map_of fs k = Some f \<longleftrightarrow>
               (\<exists>n<length items. stated_feature e (items ! n) = Some (k, f) \<and>
                  (\<forall>m<length items. n < m \<longrightarrow>
                     (\<forall>f'. stated_feature e (items ! m) \<noteq> Some (k, f'))))))
       \<and> (\<forall>(k, f)\<in>set fs.
             useKeyPath f = ''nuclide.use.'' @ k \<and>
             (\<exists>item\<in>set items. \<exists>nm. claimed_package e item = Some (pkg f) \<and>
                js_get (pkg f) ''name'' = Inr nm \<and> truthy nm \<and> ToString nm = Inr k \<and>
                dirname f = FEATURES_DIR e @ [item]))"
proof -
  from items completes have loop: "forEach_item (read_feature e) items [] = Inr fs"
    by (simp add: discover_pkg_def bind_def)
  note L = forEach_item_Inr[OF loop]
  have total: "\<forall>item\<in>set items. \<exists>r. read_feature e item = Inr r"
    using L[THEN conjunct1] .
  have L2: "fst ` set fs =
      {k. k \<noteq> ''__proto__'' \<and> (\<exists>item\<in>set items. \<exists>f. read_feature e item = Inr (Some (k, f)))}"
    using L[THEN conjunct2, THEN conjunct1] by simp
  have L3: "\<forall>(k, f)\<in>set fs.
      (\<exists>item\<in>set items. read_feature e item = Inr (Some (k, f)))"
    using L[THEN conjunct2, THEN conjunct2] by simp
  have per_item: "(\<exists>kf. read_feature e item = Inr (Some kf)) \<longleftrightarrow> claimed_package e item \<noteq> None"
    if "item \<in> set items" for item
  proof
    assume "\<exists>kf. read_feature e item = Inr (Some kf)"
    then show "claimed_package e item \<noteq> None" unfolding read_feature_Some by auto
  next
    assume c: "claimed_package e item \<noteq> None"
    from total that obtain r where r: "read_feature e item = Inr r" by blast
    have "r \<noteq> None"
    proof
      assume "r = None"
      with r have "read_feature e item = Inr None" by simp
      from read_feature_None[OF this] c show False by simp
    qed
    then obtain kf where "r = Some kf" by (cases r) auto
    with r show "\<exists>kf. read_feature e item = Inr (Some kf)" by blast
  qed
  have some: "read_feature e item = Inr (Some (k, f)) \<longleftrightarrow>
      (\<exists>nm. claimed_package e item = Some (pkg f) \<and> js_get (pkg f) ''name'' = Inr nm \<and>
         truthy nm \<and> ToString nm = Inr k \<and>
         f = \<lparr>pkg = pkg f, dirname = FEATURES_DIR e @ [item], useKeyPath = ''nuclide.use.'' @ k\<rparr>)"
    for item k f
    unfolding read_feature_Some new_feature_Inr by auto
  have read_stated: "stated_feature e item = Some kf" if "read_feature e item = Inr (Some kf)"
    for item kf
  proof -
    obtain k f where kf: "kf = (k, f)" by (cases kf)
    from that[unfolded kf some] obtain nm where
      c: "claimed_package e item = Some (pkg f)" "js_get (pkg f) ''name'' = Inr nm"
         "ToString nm = Inr k"
      and f: "f = \<lparr>pkg = pkg f, dirname = FEATURES_DIR e @ [item], useKeyPath = ''nuclide.use.'' @ k\<rparr>"
      by blast
    have "stated_feature e item =
        Some (k, \<lparr>pkg = pkg f, dirname = FEATURES_DIR e @ [item], useKeyPath = ''nuclide.use.'' @ k\<rparr>)"
      using c by (simp add: stated_feature_def)
    with f kf show ?thesis by simp
  qed
  have stated: "read_feature e item = Inr (Some kf) \<longleftrightarrow> stated_feature e item = Some kf"
    if i: "item \<in> set items" for item kf
  proof
    assume "read_feature e item = Inr (Some kf)"
    then show "stated_feature e item = Some kf" by (rule read_stated)
  next
    assume st: "stated_feature e item = Some kf"
    then have "claimed_package e item \<noteq> None"
      by (auto simp: stated_feature_def split: option.splits)
    with per_item[OF i] obtain kf' where r: "read_feature e item = Inr (Some kf')" by blast
    from read_stated[OF r] st have "kf' = kf" by simp
    with r show "read_feature e item = Inr (Some kf)" by simp
  qed
  have keys: "fst ` set fs =
      {k. k \<noteq> ''__proto__'' \<and>
          (\<exists>item\<in>set items. \<exists>p nm. claimed_package e item = Some p \<and>
             js_get p ''name'' = Inr nm \<and> ToString nm = Inr k)}" (is "_ = ?R")
  proof -
    have "{k. k \<noteq> ''__proto__'' \<and> (\<exists>item\<in>set items. \<exists>f. read_feature e item = Inr (Some (k, f)))} = ?R"
      (is "?M = _")
    proof (intro equalityI subsetI)
      fix k assume "k \<in> ?M"
      then show "k \<in> ?R" unfolding some by blast
    next
      fix k assume "k \<in> ?R"
      then obtain item p nm where k: "k \<noteq> ''__proto__''" and i: "item \<in> set items"
        and c: "claimed_package e item = Some p" "js_get p ''name'' = Inr nm" "ToString nm = Inr k"
        by blast
      from per_item[OF i] c obtain kf where kf: "read_feature e item = Inr (Some kf)" by auto
      obtain k' f where "kf = (k', f)" by (cases kf)
      with kf have kf': "read_feature e item = Inr (Some (k', f))" by simp
      then obtain nm' where "claimed_package e item = Some (pkg f)"
        "js_get (pkg f) ''name'' = Inr nm'" "ToString nm' = Inr k'"
        using some[of item k' f] by blast
      with c have "k' = k" by simp
      with kf' have "read_feature e item = Inr (Some (k, f))" by simp
      with k i show "k \<in> ?M" by blast
    qed
    with L2 show ?thesis by simp
  qed
  have d: "distinct (map fst fs)"
    using forEach_item_distinct[OF loop] by simp
  have last: "map_of fs k = Some f \<longleftrightarrow>
      (\<exists>n<length items. stated_feature e (items ! n) = Some (k, f) \<and>
         (\<forall>m<length items. n < m \<longrightarrow> (\<forall>f'. stated_feature e (items ! m) \<noteq> Some (k, f'))))"
    if k: "k \<noteq> ''__proto__''" for k f
  proof -
    have eq: "read_feature e (items ! n) = Inr (Some kf) \<longleftrightarrow> stated_feature e (items ! n) = Some kf"
      if "n < length items" for n kf
      using stated[of "items ! n" kf] that by simp
    have "(\<exists>n<length items. read_feature e (items ! n) = Inr (Some (k, f)) \<and>
            (\<forall>m<length items. n < m \<longrightarrow> (\<forall>f'. read_feature e (items ! m) \<noteq> Inr (Some (k, f')))))
       \<longleftrightarrow> (\<exists>n<length items. stated_feature e (items ! n) = Some (k, f) \<and>
         (\<forall>m<length items. n < m \<longrightarrow> (\<forall>f'. stated_feature e (items ! m) \<noteq> Some (k, f'))))"
      using eq by blast
    with forEach_item_last[OF loop k, of f] show ?thesis by simp
  qed
  have vals: "\<forall>(k, f)\<in>set fs.
             useKeyPath f = ''nuclide.use.'' @ k \<and>
             (\<exists>item\<in>set items. \<exists>nm. claimed_package e item = Some (pkg f) \<and>
                js_get (pkg f) ''name'' = Inr nm \<and> truthy nm \<and> ToString nm = Inr k \<and>
                dirname f = FEATURES_DIR e @ [item])"
  proof (clarify)
    fix k f assume "(k, f) \<in> set fs"
    with L3 obtain item where i: "item \<in> set items" and r: "read_feature e item = Inr (Some (k, f))"
      by fastforce
    from r obtain nm where c: "claimed_package e item = Some (pkg f)" "js_get (pkg f) ''name'' = Inr nm"
         "truthy nm" "ToString nm = Inr k"
      and f: "f = \<lparr>pkg = pkg f, dirname = FEATURES_DIR e @ [item], useKeyPath = ''nuclide.use.'' @ k\<rparr>"
      unfolding some by blast
    from f have "useKeyPath f = ''nuclide.use.'' @ k" "dirname f = FEATURES_DIR e @ [item]"
      by (metis feature.select_convs(3), metis feature.select_convs(2))
    with i c show "useKeyPath f = ''nuclide.use.'' @ k \<and>
             (\<exists>item\<in>set items. \<exists>nm. claimed_package e item = Some (pkg f) \<and>
                js_get (pkg f) ''name'' = Inr nm \<and> truthy nm \<and> ToString nm = Inr k \<and>
                dirname f = FEATURES_DIR e @ [item])"
      by blast
  qed
  from per_item have 1: "\<forall>item\<in>set items.
      (\<exists>kf. read_feature e item = Inr (Some kf)) \<longleftrightarrow> claimed_package e item \<noteq> None"
    by (rule ballI)
  from stated have 2: "\<forall>item\<in>set items. \<forall>kf.
      read_feature e item = Inr (Some kf) \<longleftrightarrow> stated_feature e item = Some kf"
    by blast
  have named: "\<forall>item\<in>set items. \<forall>p. claimed_package e item = Some p \<longrightarrow>
            (\<exists>nm. js_get p ''name'' = Inr nm \<and> truthy nm)"
  proof (intro ballI allI impI)
    fix item p assume i: "item \<in> set items" and c: "claimed_package e item = Some p"
    with per_item[OF i] obtain kf where "read_feature e item = Inr (Some kf)" by auto
    then obtain p' nm where "claimed_package e item = Some p'" "js_get p' ''name'' = Inr nm" "truthy nm"
      unfolding read_feature_Some by blast
    with c show "\<exists>nm. js_get p ''name'' = Inr nm \<and> truthy nm" by auto
  qed
  from last have 3: "\<forall>k f. k \<noteq> ''__proto__'' \<longrightarrow>
            (map_of fs k = Some f \<longleftrightarrow>
               (\<exists>n<length items. stated_feature e (items ! n) = Some (k, f) \<and>
                  (\<forall>m<length items. n < m \<longrightarrow>
                     (\<forall>f'. stated_feature e (items ! m) \<noteq> Some (k, f')))))"
    by blast
  from 1 2 named keys d 3 vals show ?thesis by (intro conjI)
qed

text \<open>
  Claim C2 as first stated fails on a package without a name: the entry \<open>foo\<close> meets the
  four conditions, yet \<open>invariant(pkg.name)\<close> throws and no feature is registered.
\<close>

theorem nameless_package_not_registered:
  "claimed_package nameless_env ''foo'' = Some nameless_package
   \<and> read_feature nameless_env ''foo'' = Inl (AssertionError ''Invariant violation'')
   \<and> discover_pkg nameless_env = Inl (AssertionError ''Invariant violation'')
   \<and> \<not> ((\<exists>kf. read_feature nameless_env ''foo'' = Inr (Some kf))
          \<longleftrightarrow> claimed_package nameless_env ''foo'' \<noteq> None)"
proof -
  have "readdirSync (fs_root nameless_env) (FEATURES_DIR nameless_env) = Inr [''foo'']"
    by (simp add: nameless_env_def example_env_def FEATURES_DIR_def path_join_def readdirSync_def bind_def)
  then have "discover_pkg nameless_env = Inl (AssertionError ''Invariant violation'')"
    by (simp add: discover_pkg_def bind_def nameless_read)
  then show ?thesis by (simp add: nameless_claimed nameless_read)
qed

lemma twice_readdir:
  "readdirSync (fs_root twice_env) (FEATURES_DIR twice_env) = Inr [''a'', ''b'']"
  by (simp add: twice_env_def example_env_def FEATURES_DIR_def path_join_def readdirSync_def bind_def)

lemma twice_read:
  "item = ''a'' \<or> item = ''b'' \<Longrightarrow>
   read_feature twice_env item = Inr (Some (''foo'', foo_feature_in item))"
  by (auto simp: read_feature_def twice_env_def example_env_def FEATURES_DIR_def path_join_def
      example_parse_def foo_text_def nameless_text_def quoted_Atom_def indexOf_def bind_def statSync_def
      readFileSync_def read_package_def register_package_def invariant_def new_feature_def
      foo_package_def js_get_def foo_feature_in_def)

lemma twice_discover: "discover_pkg twice_env = Inr [(''foo'', foo_feature_in ''b'')]"
  by (simp add: discover_pkg_def twice_readdir bind_def twice_read obj_set_def)

theorem discovery_registers_claimed_packages_witness:
  "readdirSync (fs_root twice_env) (FEATURES_DIR twice_env) = Inr [''a'', ''b'']
   \<and> discover_pkg twice_env = Inr [(''foo'', foo_feature_in ''b'')]
   \<and> stated_feature twice_env ''a'' = Some (''foo'', foo_feature_in ''a'')
   \<and> stated_feature twice_env ''b'' = Some (''foo'', foo_feature_in ''b'')
   \<and> foo_feature_in ''a'' \<noteq> foo_feature_in ''b''"
proof -
  note th = discovery_registers_claimed_packages[OF twice_readdir twice_discover]
  from th have "\<forall>item\<in>set [''a'', ''b'']. \<forall>kf.
      read_feature twice_env item = Inr (Some kf) \<longleftrightarrow> stated_feature twice_env item = Some kf"
    by (rule conjunct1[OF conjunct2])
  then have eq: "\<And>item kf. item = ''a'' \<or> item = ''b'' \<Longrightarrow>
      read_feature twice_env item = Inr (Some kf) \<Longrightarrow> stated_feature twice_env item = Some kf"
    by simp
  have "stated_feature twice_env ''a'' = Some (''foo'', foo_feature_in ''a'')"
    by (rule eq[OF _ twice_read]) simp_all
  moreover have "stated_feature twice_env ''b'' = Some (''foo'', foo_feature_in ''b'')"
    by (rule eq[OF _ twice_read]) simp_all
  ultimately show ?thesis
    using twice_readdir twice_discover by (simp add: foo_feature_in_def)
qed

subsection \<open>Properties of the settings schema\<close>

lemma js_get_Obj: "js_get (Obj kvs) k = Inr (case map_of kvs k of None \<Rightarrow> Undefined | Some v \<Rightarrow> v)"
  by (simp add: js_get_def split: option.splits)

lemma assign_in_properties_schema:
  assumes "map_of config owner = Some (schema_object props)" and "owner \<noteq> ''__proto__''"
  shows "assign_in_properties config owner k rhs =
         bind rhs (\<lambda>v. Inr (obj_set config owner (schema_object (obj_set props k v))))"
  using assms
  by (cases rhs)
     (simp_all add: assign_in_properties_def js_get_Obj schema_object_def bind_def js_assign_def
       obj_set_def)

lemma feature_setting_Inr:
  assumes "feature_setting fname p = Inr s"
  shows "\<exists>d. s = Obj [(''title'', Str (''Enable the '' @ [CHR 0x22] @ fname @ [CHR 0x22] @ '' feature'')),
           (''description'', d), (''type'', Str ''boolean''),
           (''default'', Bool (\<not> startsWith fname ''sample-''))]"
  using assms unfolding feature_setting_def Let_def bind_Inr_iff by blast

lemma forEach_key_Inr:
  assumes "forEach_key pc fname ks config = Inr config'"
    and "map_of config fname = Some (schema_object props)" and "fname \<noteq> ''__proto__''"
  shows "\<exists>props'. map_of config' fname = Some (schema_object props')
           \<and> (\<forall>m. m \<noteq> fname \<longrightarrow> map_of config' m = map_of config m)
           \<and> (\<forall>key\<in>set ks. \<exists>v. config_entry pc key = Inr v \<and>
                 (key \<noteq> ''__proto__'' \<longrightarrow> map_of props' key = Some v))
           \<and> (\<forall>key. key \<notin> set ks \<longrightarrow> map_of props' key = map_of props key)"
  using assms
proof (induction ks arbitrary: config props)
  case Nil
  then show ?case by auto
next
  case (Cons key ks)
  from Cons.prems(2,3) have step: "assign_in_properties config fname key (config_entry pc key) =
      bind (config_entry pc key) (\<lambda>v. Inr (obj_set config fname (schema_object (obj_set props key v))))"
    by (rule assign_in_properties_schema)
  from Cons.prems(1) obtain config1 where
    c1: "assign_in_properties config fname key (config_entry pc key) = Inr config1"
    and rest: "forEach_key pc fname ks config1 = Inr config'"
    by (auto simp: bind_Inr_iff)
  from c1 step obtain v where v: "config_entry pc key = Inr v"
    and config1: "config1 = obj_set config fname (schema_object (obj_set props key v))"
    by (auto simp: bind_Inr_iff)
  have m1: "map_of config1 fname = Some (schema_object (obj_set props key v))"
    and o1: "\<And>m. m \<noteq> fname \<Longrightarrow> map_of config1 m = map_of config m"
    using Cons.prems(3) by (simp_all add: config1 map_of_obj_set)
  from Cons.IH[OF rest m1 Cons.prems(3)] obtain props' where
    a: "map_of config' fname = Some (schema_object props')"
    and b: "\<forall>m. m \<noteq> fname \<longrightarrow> map_of config' m = map_of config1 m"
    and c: "\<forall>key\<in>set ks. \<exists>v. config_entry pc key = Inr v \<and>
                 (key \<noteq> ''__proto__'' \<longrightarrow> map_of props' key = Some v)"
    and d: "\<forall>k. k \<notin> set ks \<longrightarrow> map_of props' k = map_of (obj_set props key v) k"
    by blast
  have c': "\<forall>k\<in>set (key # ks). \<exists>v. config_entry pc k = Inr v \<and>
                 (k \<noteq> ''__proto__'' \<longrightarrow> map_of props' k = Some v)"
  proof
    fix k assume k: "k \<in> set (key # ks)"
    show "\<exists>v. config_entry pc k = Inr v \<and> (k \<noteq> ''__proto__'' \<longrightarrow> map_of props' k = Some v)"
    proof (cases "k \<in> set ks")
      case True
      with c show ?thesis by blast
    next
      case False
      with k have "k = key" by simp
      with False d v show ?thesis by (auto simp: map_of_obj_set)
    qed
  qed
  have d': "\<forall>k. k \<notin> set (key # ks) \<longrightarrow> map_of props' k = map_of props k"
    using d by (auto simp: map_of_obj_set)
  from a b o1 c' d' show ?case by auto
qed

lemma add_feature_config_Inr:
  assumes run: "add_feature_config fname f config = Inr config'"
    and use: "map_of config ''use'' = Some (schema_object uprops)"
    and n: "fname \<noteq> ''use''" "fname \<noteq> ''__proto__''"
  shows "\<exists>setting. feature_setting fname (pkg f) = Inr setting
           \<and> map_of config' ''use'' = Some (schema_object (obj_set uprops fname setting))
           \<and> (\<forall>m. m \<noteq> fname \<and> m \<noteq> ''use'' \<longrightarrow> map_of config' m = map_of config m)
           \<and> feature_configured fname f config'"
proof -
  from run obtain setting config1 pc where
    s: "feature_setting fname (pkg f) = Inr setting"
    and a: "assign_in_properties config ''use'' fname (Inr setting) = Inr config1"
    and pc: "package_config (pkg f) = Inr pc"
    and r: "(if truthy pc then
         let config2 = obj_set config1 fname (schema_object [])
         in bind (Object_keys pc) (\<lambda>keys. forEach_key pc fname keys config2)
       else Inr config1) = Inr config'"
    unfolding add_feature_config_def bind_Inr_iff schema_object_def by blast
  have "''use'' \<noteq> ''__proto__''" by simp
  from assign_in_properties_schema[OF use this, of fname "Inr setting"] a
  have config1: "config1 = obj_set config ''use'' (schema_object (obj_set uprops fname setting))"
    by (simp add: bind_def)
  have u1: "map_of config1 ''use'' = Some (schema_object (obj_set uprops fname setting))"
    and o1: "\<And>m. m \<noteq> ''use'' \<Longrightarrow> map_of config1 m = map_of config m"
    by (simp_all add: config1 map_of_obj_set)
  have su: "map_of (obj_set uprops fname setting) fname = Some setting"
    using n by (simp add: map_of_obj_set)
  show ?thesis
  proof (cases "truthy pc")
    case False
    with r have "config' = config1" by simp
    have fc: "feature_configured fname f config1"
      unfolding feature_configured_def
      using u1 s su pc False
      by (intro exI[of _ "obj_set uprops fname setting"] exI[of _ setting] exI[of _ pc]) simp
    have oth: "\<forall>m. m \<noteq> fname \<and> m \<noteq> ''use'' \<longrightarrow> map_of config1 m = map_of config m"
      using o1 by simp
    from s u1 oth fc show ?thesis unfolding \<open>config' = config1\<close> by (intro exI[of _ setting] conjI)
  next
    case True
    with r obtain ks where ks: "Object_keys pc = Inr ks"
      and loop: "forEach_key pc fname ks (obj_set config1 fname (schema_object [])) = Inr config'"
      by (auto simp: bind_Inr_iff Let_def)
    have m2: "map_of (obj_set config1 fname (schema_object [])) fname = Some (schema_object [])"
      using n by (simp add: map_of_obj_set)
    from forEach_key_Inr[OF loop m2 n(2)] obtain props where
      p1: "map_of config' fname = Some (schema_object props)"
      and p2: "\<forall>m. m \<noteq> fname \<longrightarrow> map_of config' m = map_of (obj_set config1 fname (schema_object [])) m"
      and p3: "\<forall>key\<in>set ks. \<exists>v. config_entry pc key = Inr v \<and>
                 (key \<noteq> ''__proto__'' \<longrightarrow> map_of props key = Some v)"
      and p4: "\<forall>key. key \<notin> set ks \<longrightarrow> map_of props key = map_of [] key"
      by blast
    have others: "\<And>m. m \<noteq> fname \<Longrightarrow> map_of config' m = map_of config1 m"
      using p2 by (simp add: map_of_obj_set)
    have u': "map_of config' ''use'' = Some (schema_object (obj_set uprops fname setting))"
      using others[of "''use''"] n u1 by simp
    have sub: "fst ` set props \<subseteq> set ks"
    proof
      fix k assume "k \<in> fst ` set props"
      then have "map_of props k \<noteq> None" by (simp add: map_of_eq_None_iff)
      with p4 show "k \<in> set ks" by auto
    qed
    have "\<exists>ks props. Object_keys pc = Inr ks \<and>
              map_of config' fname = Some (schema_object props) \<and>
              (\<forall>key\<in>set ks. \<exists>v. config_entry pc key = Inr v \<and>
                 (key \<noteq> ''__proto__'' \<longrightarrow> map_of props key = Some v)) \<and>
              fst ` set props \<subseteq> set ks"
      using ks p1 p3 sub by (intro exI conjI)
    then have fc: "feature_configured fname f config'"
      unfolding feature_configured_def
      using u' s su pc by (intro exI[of _ "obj_set uprops fname setting"] exI[of _ setting] exI[of _ pc]) simp
    have oth: "\<forall>m. m \<noteq> fname \<and> m \<noteq> ''use'' \<longrightarrow> map_of config' m = map_of config m"
      using others o1 by simp
    from s u' oth fc show ?thesis by (intro exI[of _ setting] conjI)
  qed
qed

lemma feature_configured_kept:
  assumes fc: "feature_configured fname f config"
    and use': "\<And>uprops. map_of config ''use'' = Some (schema_object uprops) \<Longrightarrow>
               \<exists>s. map_of config' ''use'' = Some (schema_object (obj_set uprops m s))"
    and same: "map_of config' fname = map_of config fname"
    and m: "m \<noteq> fname"
  shows "feature_configured fname f config'"
proof -
  from fc obtain uprops setting pc where
    u: "map_of config ''use'' = Some (schema_object uprops)"
    and s: "feature_setting fname (pkg f) = Inr setting" "map_of uprops fname = Some setting"
    and pc: "package_config (pkg f) = Inr pc"
    and rest: "truthy pc \<longrightarrow>
           (\<exists>ks props. Object_keys pc = Inr ks \<and>
              map_of config fname = Some (schema_object props) \<and>
              (\<forall>key\<in>set ks. \<exists>v. config_entry pc key = Inr v \<and>
                 (key \<noteq> ''__proto__'' \<longrightarrow> map_of props key = Some v)) \<and>
              fst ` set props \<subseteq> set ks)"
    unfolding feature_configured_def by (elim exE conjE) auto
  from use'[OF u] obtain s' where u': "map_of config' ''use'' = Some (schema_object (obj_set uprops m s'))"
    by blast
  have "map_of (obj_set uprops m s') fname = Some setting"
    using s(2) m by (simp add: map_of_obj_set)
  with u' s(1) pc rest same show ?thesis
    unfolding feature_configured_def
    by (intro exI[of _ "obj_set uprops m s'"] exI[of _ setting] exI[of _ pc]) simp
qed

lemma feature_configured_use:
  "feature_configured fname f config \<Longrightarrow> \<exists>uprops. map_of config ''use'' = Some (schema_object uprops)"
  unfolding feature_configured_def by (elim exE conjE) auto

lemma forEach_name_kept:
  assumes "forEach_name fs names config = Inr config'"
    and "fname \<notin> set names" and "''use'' \<notin> set names" and "''__proto__'' \<notin> set names"
    and "feature_configured fname f config" and "fname \<noteq> ''use''"
  shows "feature_configured fname f config'"
  using assms
proof (induction names arbitrary: config)
  case Nil
  then show ?case by simp
next
  case (Cons m names)
  from Cons.prems(1) obtain g config1 where g: "map_of fs m = Some g"
    and step: "add_feature_config m g config = Inr config1"
    and rest: "forEach_name fs names config1 = Inr config'"
    by (auto simp: bind_Inr_iff split: option.splits)
  from Cons.prems have m: "m \<noteq> ''use''" "m \<noteq> ''__proto__''" "m \<noteq> fname" by auto
  have use': "\<exists>s. map_of config1 ''use'' = Some (schema_object (obj_set uprops m s))"
    if "map_of config ''use'' = Some (schema_object uprops)" for uprops
    using add_feature_config_Inr[OF step that m(1,2)] by blast
  from feature_configured_use[OF Cons.prems(5)] obtain uprops where
    u: "map_of config ''use'' = Some (schema_object uprops)" by blast
  have same: "map_of config1 fname = map_of config fname"
    using add_feature_config_Inr[OF step u m(1,2)] m(3) Cons.prems(6) by auto
  have "feature_configured fname f config1"
    using Cons.prems(5) use' same m(3) by (rule feature_configured_kept)
  with Cons.IH[OF rest] Cons.prems show ?case by simp
qed

lemma forEach_name_Inr:
  assumes "forEach_name fs names config = Inr config'"
    and "map_of config ''use'' = Some (schema_object uprops)"
    and "distinct names" and "''use'' \<notin> set names" and "''__proto__'' \<notin> set names"
  shows "\<forall>fname\<in>set names. \<exists>f. map_of fs fname = Some f \<and> feature_configured fname f config'"
  using assms
proof (induction names arbitrary: config uprops)
  case Nil
  then show ?case by simp
next
  case (Cons m names)
  from Cons.prems(1) obtain g config1 where g: "map_of fs m = Some g"
    and step: "add_feature_config m g config = Inr config1"
    and rest: "forEach_name fs names config1 = Inr config'"
    by (auto simp: bind_Inr_iff split: option.splits)
  from Cons.prems have m: "m \<noteq> ''use''" "m \<noteq> ''__proto__''" "m \<notin> set names"
    and names: "distinct names" "''use'' \<notin> set names" "''__proto__'' \<notin> set names" by auto
  from add_feature_config_Inr[OF step Cons.prems(2) m(1,2)] obtain setting where
    u1: "map_of config1 ''use'' = Some (schema_object (obj_set uprops m setting))"
    and fc: "feature_configured m g config1"
    by blast
  have here: "feature_configured m g config'"
    using rest m(3) names(2,3) fc m(1) by (rule forEach_name_kept)
  from Cons.IH[OF rest u1 names]
  have "\<forall>fname\<in>set names. \<exists>f. map_of fs fname = Some f \<and> feature_configured fname f config'" .
  with g here show ?case by simp
qed

lemma config_entry_Inr:
  "config_entry pc key = Inr v \<longleftrightarrow>
   (\<exists>entry t. js_get pc key = Inr entry \<and> js_get entry ''title'' = Inr t \<and>
      v = Obj (AList.update ''title'' (if truthy t then t else Str key) (own_properties entry)))"
  by (auto simp: config_entry_def bind_Inr_iff js_or_def)

lemma initial_config_use: "map_of initial_config ''use'' = Some (schema_object [])"
  by (simp add: initial_config_def schema_object_def)

lemma get_path_schema_properties:
  "map_of config k = Some (schema_object props) \<Longrightarrow>
   get_path (Obj config) (k # ''properties'' # ks) = get_path (Obj props) ks"
  by (simp add: js_get_Obj bind_def schema_object_def)

lemma get_path_schema_type:
  "map_of config k = Some (schema_object props) \<Longrightarrow>
   get_path (Obj config) [k, ''type''] = Inr (Str ''object'')"
  by (simp add: js_get_Obj bind_def schema_object_def)

text \<open>
  Claim C3, as amended.  Let the schema be built to completion from a table of features
  with distinct names, none of them \<open>use\<close> (or \<open>__proto__\<close>).  Then for every feature
  \<open>fname\<close> of the table, \<open>config.use.properties[fname]\<close> is a boolean entry whose default is
  false exactly when the name starts with \<open>sample-\<close>; and if the feature declares a config
  (\<open>pkg.atomConfig\<close>, or else \<open>pkg.nuclide.config\<close>), \<open>config[fname]\<close> is an object entry whose
  properties are, for each key of that config, a copy of the entry in which the title is
  replaced by the key when it is missing or falsy.
\<close>

theorem settings_schema_entries:
  assumes built: "build_config fs = Inr config"
    and names: "distinct (map fst fs)" "''use'' \<notin> fst ` set fs" "''__proto__'' \<notin> fst ` set fs"
    and feature: "(fname, f) \<in> set fs"
  shows "get_path (Obj config) [''use'', ''properties'', fname, ''type''] = Inr (Str ''boolean'')
       \<and> get_path (Obj config) [''use'', ''properties'', fname, ''default'']
           = Inr (Bool (\<not> startsWith fname ''sample-''))
       \<and> (\<exists>pc. package_config (pkg f) = Inr pc \<and>
            (truthy pc \<longrightarrow>
               get_path (Obj config) [fname, ''type''] = Inr (Str ''object'') \<and>
               (\<exists>ks props. Object_keys pc = Inr ks \<and>
                  get_path (Obj config) [fname, ''properties''] = Inr (Obj props) \<and>
                  fst ` set props \<subseteq> set ks \<and>
                  (\<forall>key\<in>set ks. key \<noteq> ''__proto__'' \<longrightarrow>
                     (\<exists>entry t. js_get pc key = Inr entry \<and> js_get entry ''title'' = Inr t \<and>
                        map_of props key = Some (Obj (AList.update ''title''
                          (if truthy t then t else Str key) (own_properties entry))))))))"
proof -
  from names(1) feature have look: "map_of fs fname = Some f" by simp
  from feature have mem: "fname \<in> set (map fst fs)" by force
  from built have loop: "forEach_name fs (map fst fs) initial_config = Inr config"
    by (simp add: build_config_def)
  from forEach_name_Inr[OF loop initial_config_use names(1)] names(2,3) mem look
  have fc: "feature_configured fname f config" by auto
  then obtain uprops setting pc where
    u: "map_of config ''use'' = Some (schema_object uprops)"
    and s: "feature_setting fname (pkg f) = Inr setting" "map_of uprops fname = Some setting"
    and pc: "package_config (pkg f) = Inr pc"
    and rest: "truthy pc \<longrightarrow>
           (\<exists>ks props. Object_keys pc = Inr ks \<and>
              map_of config fname = Some (schema_object props) \<and>
              (\<forall>key\<in>set ks. \<exists>v. config_entry pc key = Inr v \<and>
                 (key \<noteq> ''__proto__'' \<longrightarrow> map_of props key = Some v)) \<and>
              fst ` set props \<subseteq> set ks)"
    unfolding feature_configured_def by (elim exE conjE) auto
  from feature_setting_Inr[OF s(1)] obtain d where
    setting: "setting = Obj [(''title'', Str (''Enable the '' @ [CHR 0x22] @ fname @ [CHR 0x22] @ '' feature'')),
           (''description'', d), (''type'', Str ''boolean''),
           (''default'', Bool (\<not> startsWith fname ''sample-''))]"
    by blast
  have 1: "get_path (Obj config) [''use'', ''properties'', fname, ''type''] = Inr (Str ''boolean'')"
    unfolding get_path_schema_properties[OF u]
    by (simp add: js_get_Obj bind_def s(2) setting)
  have 2: "get_path (Obj config) [''use'', ''properties'', fname, ''default'']
           = Inr (Bool (\<not> startsWith fname ''sample-''))"
    unfolding get_path_schema_properties[OF u]
    by (simp add: js_get_Obj bind_def s(2) setting)
  have 3: "get_path (Obj config) [fname, ''type''] = Inr (Str ''object'') \<and>
               (\<exists>ks props. Object_keys pc = Inr ks \<and>
                  get_path (Obj config) [fname, ''properties''] = Inr (Obj props) \<and>
                  fst ` set props \<subseteq> set ks \<and>
                  (\<forall>key\<in>set ks. key \<noteq> ''__proto__'' \<longrightarrow>
                     (\<exists>entry t. js_get pc key = Inr entry \<and> js_get entry ''title'' = Inr t \<and>
                        map_of props key = Some (Obj (AList.update ''title''
                          (if truthy t then t else Str key) (own_properties entry))))))"
    if "truthy pc"
  proof -
    from rest that obtain ks props where ks: "Object_keys pc = Inr ks"
      and p: "map_of config fname = Some (schema_object props)"
      and e: "\<forall>key\<in>set ks. \<exists>v. config_entry pc key = Inr v \<and>
                 (key \<noteq> ''__proto__'' \<longrightarrow> map_of props key = Some v)"
      and sub: "fst ` set props \<subseteq> set ks"
      by blast
    have e': "\<forall>key\<in>set ks. key \<noteq> ''__proto__'' \<longrightarrow>
                     (\<exists>entry t. js_get pc key = Inr entry \<and> js_get entry ''title'' = Inr t \<and>
                        map_of props key = Some (Obj (AList.update ''title''
                          (if truthy t then t else Str key) (own_properties entry))))"
    proof (intro ballI impI)
      fix key assume "key \<in> set ks" "key \<noteq> ''__proto__''"
      with e obtain v where "config_entry pc key = Inr v" "map_of props key = Some v" by blast
      then show "\<exists>entry t. js_get pc key = Inr entry \<and> js_get entry ''title'' = Inr t \<and>
                        map_of props key = Some (Obj (AList.update ''title''
                          (if truthy t then t else Str key) (own_properties entry)))"
        unfolding config_entry_Inr by blast
    qed
    have pp: "get_path (Obj config) [fname, ''properties''] = Inr (Obj props)"
      unfolding get_path_schema_properties[OF p] by simp
    from get_path_schema_type[OF p] ks pp sub e' show ?thesis by blast
  qed
  from 1 2 pc 3 show ?thesis by blast
qed

lemmas schema_eval =
  build_config_def add_feature_config_def feature_setting_def assign_in_properties_def
  package_config_def config_entry_def Object_keys_def js_assign_def js_get_def js_or_def
  obj_set_def bind_def startsWith_def initial_config_def Let_def

text \<open>
  Claim C3 as first stated fails twice.  A title that is present but empty is not kept:
  the copy has the key for a title.  And a feature named \<open>use\<close> that declares a config
  replaces \<open>config.use\<close> by its own entry, so that its enabling entry is gone.
\<close>

theorem settings_schema_counterexample:
  "bind (build_config [(''baz'', baz_feature)])
     (\<lambda>config. get_path (Obj config) [''baz'', ''properties'', ''depth'', ''title'']) = Inr (Str ''depth'')
   \<and> get_path (pkg baz_feature) [''nuclide'', ''config'', ''depth'', ''title''] = Inr (Str [])
   \<and> bind (build_config [(''use'', use_feature)])
     (\<lambda>config. get_path (Obj config) [''use'', ''properties'', ''use'']) = Inr Undefined"
  by (simp add: schema_eval baz_feature_def use_feature_def)

lemma example_build: "build_config example_features = Inr example_config"
  by (simp add: schema_eval example_features_def example_config_def sample_feature_def bar_feature_def)

theorem settings_schema_entries_witness:
  "build_config example_features = Inr example_config
   \<and> get_path (Obj example_config) [''use'', ''properties'', ''sample-hello'', ''default''] = Inr (Bool False)
   \<and> get_path (Obj example_config) [''use'', ''properties'', ''bar'', ''default''] = Inr (Bool True)
   \<and> get_path (Obj example_config) [''bar'', ''type''] = Inr (Str ''object'')"
proof -
  have names: "distinct (map fst example_features)" "''use'' \<notin> fst ` set example_features"
    "''__proto__'' \<notin> fst ` set example_features"
    by (simp_all add: example_features_def)
  have s: "(''sample-hello'', sample_feature) \<in> set example_features"
    and b: "(''bar'', bar_feature) \<in> set example_features"
    by (simp_all add: example_features_def)
  have pc: "package_config (pkg bar_feature) =
      Inr (Obj [(''depth'', Obj [(''type'', Str ''integer'')])])"
    by (simp add: package_config_def bar_feature_def js_get_def bind_def)
  from settings_schema_entries[OF example_build names s]
  have 1: "get_path (Obj example_config) [''use'', ''properties'', ''sample-hello'', ''default'']
      = Inr (Bool False)"
    by (simp add: startsWith_def)
  from settings_schema_entries[OF example_build names b]
  have 2: "get_path (Obj example_config) [''use'', ''properties'', ''bar'', ''default''] = Inr (Bool True)"
    and 3: "get_path (Obj example_config) [''bar'', ''type''] = Inr (Str ''object'')"
    by (simp_all add: startsWith_def pc)
  from example_build 1 2 3 show ?thesis by simp
qed

subsection \<open>Properties of \<open>deactivate\<close>\<close>

lemma seq_Inr:
  "seq m f s = (Inr y, s') \<longleftrightarrow> (\<exists>x s1. m s = (Inr x, s1) \<and> f x s1 = (Inr y, s'))"
  by (cases "m s") (auto simp: seq_def split: sum.splits)

lemma safeDeactivate_state:
  "snd (safeDeactivate h fname suppress s) =
     s\<lparr>trace := trace s @ attempt h (trace s) fname suppress\<rparr>"
  by (simp add: safeDeactivate_def try_catch_def seq_def call_host_def console_error_def ret_def
      attempt_def logged_def bind_def split: reply.splits sum.splits)

lemma safeDeactivate_outcome:
  assumes "throws_loggable h"
  shows "fst (safeDeactivate h fname suppress s) = Inr ()"
proof -
  have l: "\<exists>m shown. message err = Inr m \<and> ToString m = Inr shown" if "reply h tr c = Throws err"
    for tr c err
    using assms that unfolding throws_loggable_def by (fastforce simp: bind_Inr_iff)
  show ?thesis
  proof (cases "reply h (trace s) (GetLoadedPackage fname)")
    case (Throws err)
    from l[OF this] Throws show ?thesis
      by (auto simp: safeDeactivate_def try_catch_def seq_def call_host_def console_error_def)
  next
    case pack: (Returns pack)
    show ?thesis
    proof (cases "not_null pack")
      case False
      with pack show ?thesis
        by (simp add: safeDeactivate_def try_catch_def seq_def call_host_def ret_def)
    next
      case True
      show ?thesis
      proof (cases "reply h (trace s @ [GetLoadedPackage fname]) (DeactivatePackage fname suppress)")
        case (Returns v)
        with pack True show ?thesis
          by (simp add: safeDeactivate_def try_catch_def seq_def call_host_def ret_def)
      next
        case (Throws err)
        from l[OF this] Throws pack True show ?thesis
          by (auto simp: safeDeactivate_def try_catch_def seq_def call_host_def console_error_def)
      qed
    qed
  qed
qed

lemma safeDeactivate_run:
  assumes "throws_loggable h"
  shows "safeDeactivate h fname suppress s =
     (Inr (), s\<lparr>trace := trace s @ attempt h (trace s) fname suppress\<rparr>)"
  using safeDeactivate_state[of h fname suppress s] safeDeactivate_outcome[OF assms, of fname suppress s]
  by (cases "safeDeactivate h fname suppress s") simp

lemma forEach_safeDeactivate:
  assumes "throws_loggable h"
  shows "forEach (\<lambda>fname. safeDeactivate h fname suppress) names s =
     (Inr (), s\<lparr>trace := trace s @ attempts h (trace s) names suppress\<rparr>)"
proof (induction names arbitrary: s)
  case Nil
  then show ?case by (simp add: ret_def)
next
  case (Cons fname names)
  show ?case
    by (simp add: seq_def safeDeactivate_run[OF assms, of fname suppress s] Cons.IH)
qed

lemma attempt_queries:
  "filter is_GetLoadedPackage (attempt h tr fname suppress) = [GetLoadedPackage fname]"
  by (simp add: attempt_def logged_def is_GetLoadedPackage_def split: reply.splits sum.splits)

lemma attempts_queries:
  "filter is_GetLoadedPackage (attempts h tr names suppress) = map GetLoadedPackage names"
  by (induction names arbitrary: tr) (simp_all add: attempt_queries)

lemma attempt_deactivations:
  "DeactivatePackage n v \<in> set (attempt h tr fname suppress) \<Longrightarrow> v = suppress \<and> n = fname"
  by (auto simp: attempt_def logged_def split: reply.splits if_splits sum.splits)

lemma attempts_deactivations:
  "DeactivatePackage n v \<in> set (attempts h tr names suppress) \<Longrightarrow> v = suppress \<and> n \<in> set names"
  by (induction names arbitrary: tr) (auto dest: attempt_deactivations)

lemma dispose_all_run:
  assumes "\<And>tr d err. reply h tr (Dispose d) \<noteq> Throws err"
  shows "\<exists>obs. dispose_all h ds s =
           (Inr (), s\<lparr>trace := trace s @ map Dispose ds, observers := obs\<rparr>)"
proof (induction ds arbitrary: s)
  case Nil
  have "s = s\<lparr>trace := trace s @ map Dispose [], observers := observers s\<rparr>" by simp
  then show ?case unfolding dispose_all_def forEach.simps ret_def by blast
next
  case (Cons d ds)
  from assms obtain v where "reply h (trace s) (Dispose d) = Returns v"
    by (cases "reply h (trace s) (Dispose d)") auto
  then have 1: "seq (call_host h (Dispose d)) (\<lambda>v. ret ()) s =
      (Inr (), s\<lparr>trace := trace s @ [Dispose d],
                 observers := after_call (Dispose d) (length (trace s)) (observers s)\<rparr>)"
    by (simp add: seq_def call_host_def ret_def)
  from Cons.IH[of "s\<lparr>trace := trace s @ [Dispose d],
                 observers := after_call (Dispose d) (length (trace s)) (observers s)\<rparr>"]
  obtain obs where 2: "dispose_all h ds (s\<lparr>trace := trace s @ [Dispose d],
                 observers := after_call (Dispose d) (length (trace s)) (observers s)\<rparr>) =
      (Inr (), s\<lparr>trace := trace s @ Dispose d # map Dispose ds, observers := obs\<rparr>)"
    by auto
  have "dispose_all h (d # ds) s =
      (Inr (), s\<lparr>trace := trace s @ map Dispose (d # ds), observers := obs\<rparr>)"
    using 1 2 by (simp add: dispose_all_def seq_def)
  then show ?case by (rule exI)
qed

text \<open>
  In an editor that throws only values whose message can be logged, and whose
  disposables do not throw, \<open>deactivate()\<close> returns normally from a state where the
  watchers and the error reporter are installed: its trace is the attempts on all the
  features, in order, each with serialization suppressed, then the disposal of the
  watchers and of the error reporter.
\<close>

lemma deactivate_when_errors_are_logged:
  assumes "disposables s = Some ds" and "errorReporterDisposable s = Some r"
    and "throws_loggable h"
    and "\<And>tr d err. reply h tr (Dispose d) \<noteq> Throws err"
  shows "fst (deactivate h fs s) = Inr ()"
    and "trace (snd (deactivate h fs s)) =
           trace s @ attempts h (trace s) (map fst fs) (Bool True) @ map Dispose ds @ [Dispose r]"
    and "disposables (snd (deactivate h fs s)) = None"
    and "errorReporterDisposable (snd (deactivate h fs s)) = None"
    and "filter is_GetLoadedPackage (attempts h (trace s) (map fst fs) (Bool True))
           = map GetLoadedPackage (map fst fs)"
    and "\<forall>n v. DeactivatePackage n v \<in> set (attempts h (trace s) (map fst fs) (Bool True))
           \<longrightarrow> v = Bool True \<and> n \<in> fst ` set fs"
proof -
  let ?s1 = "s\<lparr>trace := trace s @ attempts h (trace s) (map fst fs) (Bool True)\<rparr>"
  have loop: "forEach (\<lambda>fname. safeDeactivate h fname (Bool True)) (map fst fs) s = (Inr (), ?s1)"
    using assms(3) by (rule forEach_safeDeactivate)
  from dispose_all_run[OF assms(4), of ds ?s1] obtain obs where
    d: "dispose_all h ds ?s1 = (Inr (), ?s1\<lparr>trace := trace ?s1 @ map Dispose ds, observers := obs\<rparr>)"
    by blast
  obtain v where v: "reply h (trace s @ attempts h (trace s) (map fst fs) (Bool True) @ map Dispose ds)
      (Dispose r) = Returns v"
    using assms(4) by (cases "reply h (trace s @ attempts h (trace s) (map fst fs) (Bool True) @ map Dispose ds)
      (Dispose r)") auto
  have run: "deactivate h fs s =
           (Inr (), s\<lparr>trace := trace s @ attempts h (trace s) (map fst fs) (Bool True)
                               @ map Dispose ds @ [Dispose r],
                     observers := after_call (Dispose r)
                       (length (trace s @ attempts h (trace s) (map fst fs) (Bool True) @ map Dispose ds)) obs,
                     disposables := None, errorReporterDisposable := None\<rparr>)"
    unfolding deactivate_def
    using assms(1,2) v
    by (simp add: seq_def loop d invariant_def call_host_def ret_def)
  show "fst (deactivate h fs s) = Inr ()" unfolding run by simp
  show "trace (snd (deactivate h fs s)) =
           trace s @ attempts h (trace s) (map fst fs) (Bool True) @ map Dispose ds @ [Dispose r]"
    unfolding run by simp
  show "disposables (snd (deactivate h fs s)) = None" unfolding run by simp
  show "errorReporterDisposable (snd (deactivate h fs s)) = None" unfolding run by simp
  show "filter is_GetLoadedPackage (attempts h (trace s) (map fst fs) (Bool True))
           = map GetLoadedPackage (map fst fs)"
    by (rule attempts_queries)
  show "\<forall>n v. DeactivatePackage n v \<in> set (attempts h (trace s) (map fst fs) (Bool True))
           \<longrightarrow> v = Bool True \<and> n \<in> fst ` set fs"
    using attempts_deactivations by fastforce
qed

text \<open>
  Claim C4 fails on a thrown \<open>null\<close>.  In the editor where deactivating \<open>bar\<close> throws
  \<open>null\<close>, the \<open>catch\<close> block of \<open>safeDeactivate\<close> throws a \<open>TypeError\<close> on \<open>err.message\<close>, and
  \<open>deactivate()\<close> ends there: nothing is logged, the feature \<open>sample-hello\<close> is not
  attempted, and neither the watchers nor the error reporter are disposed of.
\<close>

theorem deactivate_aborts_on_thrown_null:
  "deactivate null_host [(''bar'', bar_feature), (''sample-hello'', sample_feature)] example_state =
     (Inl (TypeError ''Cannot read property message''),
      example_state\<lparr>trace := [GetLoadedPackage ''bar'', DeactivatePackage ''bar'' (Bool True)]\<rparr>)
   \<and> disposables example_state = Some [MenuDisposable, ConfigWatcher 6]
   \<and> errorReporterDisposable example_state = Some ErrorReporter"
  by (simp add: deactivate_def safeDeactivate_def try_catch_def seq_def call_host_def ret_def
      null_host_def host_throwing_def example_state_def not_null_def js_get_def)

subsection \<open>Properties of the menu reordering\<close>

lemma findIndex_from_none: "findIndex_from i P xs = -1 \<longleftrightarrow> (\<forall>x\<in>set xs. \<not> P x)"
proof (induction xs arbitrary: i)
  case Nil
  then show ?case by simp
next
  case (Cons x xs)
  then show ?case by auto
qed

lemma findIndex_none: "findIndex P xs = -1 \<longleftrightarrow> (\<forall>x\<in>set xs. \<not> P x)"
  by (simp add: findIndex_def findIndex_from_none)

lemma findIndex_from_first:
  "findIndex_from i P xs = int n \<Longrightarrow>
   i \<le> n \<and> n - i < length xs \<and> P (xs ! (n - i)) \<and> (\<forall>m<n - i. \<not> P (xs ! m))"
proof (induction xs arbitrary: i)
  case Nil
  then show ?case by simp
next
  case (Cons x xs)
  show ?case
  proof (cases "P x")
    case True
    with Cons.prems show ?thesis by simp
  next
    case False
    with Cons.prems have r: "findIndex_from (Suc i) P xs = int n" by simp
    from Cons.IH[OF r] have ih: "Suc i \<le> n" "n - Suc i < length xs" "P (xs ! (n - Suc i))"
      "\<forall>m<n - Suc i. \<not> P (xs ! m)" by auto
    from ih(1) have eq: "n - i = Suc (n - Suc i)" by simp
    have "\<forall>m<n - i. \<not> P ((x # xs) ! m)"
    proof (intro allI impI)
      fix m assume "m < n - i"
      then show "\<not> P ((x # xs) ! m)"
        using False ih(4) eq by (cases m) auto
    qed
    with ih eq show ?thesis by auto
  qed
qed

lemma findIndex_first:
  "findIndex P xs = int n \<Longrightarrow> n < length xs \<and> P (xs ! n) \<and> (\<forall>m<n. \<not> P (xs ! m))"
  using findIndex_from_first[of 0 P xs n] by (simp add: findIndex_def)

lemma findIndex_from_cases:
  "findIndex_from i P xs = -1 \<or> (\<exists>j. findIndex_from i P xs = int j \<and> i \<le> j \<and> j < i + length xs)"
proof (induction xs arbitrary: i)
  case Nil
  then show ?case by simp
next
  case (Cons x xs)
  from Cons.IH[of "Suc i"] show ?case by auto
qed

lemma findIndex_cases:
  "findIndex P xs = -1 \<or> (\<exists>j<length xs. findIndex P xs = int j)"
  using findIndex_from_cases[of 0 P xs] by (auto simp: findIndex_def)

text \<open>
  Where the template has an item with a role, \<open>splice(nuclideIndex, 1)\<close> removes exactly
  one item, also when no item is labelled \<open>Nuclide\<close> and the index is \<open>-1\<close>: the case of an
  empty result in \<open>reorder_template\<close> does not arise.
\<close>

lemma splice_removes_one:
  assumes "findIndex is_window_or_help t \<noteq> -1"
  shows "\<exists>x. fst (splice_delete (findIndex is_Nuclide t) 1 t) = [x]"
proof -
  from assms have "t \<noteq> []" by (auto simp: findIndex_def)
  then have len: "0 < length t" by simp
  have "nat (int (length t) - 1) < length t" using len by linarith
  with findIndex_cases[of is_Nuclide t]
  have "splice_start (findIndex is_Nuclide t) (length t) < length t"
    by (auto simp: splice_start_def)
  then show ?thesis
    by (simp add: splice_delete_def Let_def take_Suc min_def hd_drop_conv_nth)
qed

lemma reorder_template_none:
  "findIndex is_window_or_help t = -1 \<Longrightarrow> reorder_template t = t"
  by (simp add: reorder_template_def)

lemma reorder_template_eq:
  assumes i: "findIndex is_window_or_help t = int i" and j: "findIndex is_Nuclide t = int j"
  shows "reorder_template t =
         take (if j < i then i - 1 else i) (take j t @ drop (Suc j) t) @ [t ! j] @
         drop (if j < i then i - 1 else i) (take j t @ drop (Suc j) t)"
proof -
  from findIndex_first[OF i] have il: "i < length t" by simp
  from findIndex_first[OF j] have jl: "j < length t" by simp
  have del: "splice_delete (int j) 1 t = ([t ! j], take j t @ drop (Suc j) t)"
    using jl by (simp add: splice_delete_def splice_start_def Let_def take_Suc_conv_app_nth
        min_def hd_drop_conv_nth take_Suc)
  have new: "(if int i > int j then int i - 1 else int i) = int (if j < i then i - 1 else i)"
    by auto
  have len: "(if j < i then i - 1 else i) \<le> length (take j t @ drop (Suc j) t)"
    using il jl by auto
  have ins: "splice_insert (int (if j < i then i - 1 else i)) (t ! j) (take j t @ drop (Suc j) t) =
      take (if j < i then i - 1 else i) (take j t @ drop (Suc j) t) @ [t ! j] @
      drop (if j < i then i - 1 else i) (take j t @ drop (Suc j) t)"
    using len unfolding splice_insert_def splice_start_def Let_def
    by (simp only: of_nat_less_0_iff if_False nat_int min_absorb1)
  show ?thesis
    unfolding reorder_template_def Let_def i j del new
    by (simp only: ins prod.case list.case) simp
qed

lemma removed_nth:
  assumes "j < length t" and "m < length t - 1"
  shows "(take j t @ drop (Suc j) t) ! m = (if m < j then t ! m else t ! Suc m)"
  using assms by (auto simp: nth_append min_def)

lemma in_take_nth:
  assumes "x \<in> set (take k xs)"
  shows "\<exists>m. m < k \<and> m < length xs \<and> x = xs ! m"
proof -
  from assms obtain m where "m < length (take k xs)" "take k xs ! m = x"
    by (meson in_set_conv_nth)
  then have "m < k \<and> m < length xs \<and> x = xs ! m" by simp
  then show ?thesis ..
qed

lemma reorder_template_before:
  assumes i: "findIndex is_window_or_help t = int i" and j: "findIndex is_Nuclide t = int j"
    and ne: "i \<noteq> j"
  shows "(if j < i then i - 1 else i) < length (take j t @ drop (Suc j) t)
       \<and> (take j t @ drop (Suc j) t) ! (if j < i then i - 1 else i) = t ! i
       \<and> (\<forall>x\<in>set (take (if j < i then i - 1 else i) (take j t @ drop (Suc j) t)).
            \<not> is_window_or_help x)"
proof -
  from findIndex_first[OF i] have il: "i < length t" and first: "\<forall>m<i. \<not> is_window_or_help (t ! m)"
    by simp_all
  from findIndex_first[OF j] have jl: "j < length t" by simp
  define rest where "rest = take j t @ drop (Suc j) t"
  define k where "k = (if j < i then i - 1 else i)"
  have len: "length rest = length t - 1" using jl by (auto simp: rest_def)
  have nth: "\<And>m. m < length t - 1 \<Longrightarrow> rest ! m = (if m < j then t ! m else t ! Suc m)"
    unfolding rest_def using jl by (rule removed_nth)
  have a: "k < length rest" using il jl ne by (auto simp: k_def len)
  have b: "rest ! k = t ! i"
  proof (cases "j < i")
    case True
    then have "k < length t - 1" "\<not> k < j" "Suc k = i" using il by (simp_all add: k_def)
    with nth[of k] show ?thesis by simp
  next
    case False
    with ne have "k < length t - 1" "k < j" "k = i" using jl by (simp_all add: k_def)
    with nth[of k] show ?thesis by simp
  qed
  have c: "\<forall>x\<in>set (take k rest). \<not> is_window_or_help x"
  proof
    fix x assume "x \<in> set (take k rest)"
    from in_take_nth[OF this] obtain m where m: "m < k" "m < length rest" "x = rest ! m" by blast
    from m(2) len have ml: "m < length t - 1" by simp
    have "\<exists>m'<i. x = t ! m'"
    proof (cases "m < j")
      case True
      with nth[OF ml] m have "x = t ! m" by simp
      moreover from m(1) have "m < i" by (auto simp: k_def split: if_splits)
      ultimately show ?thesis by blast
    next
      case False
      with nth[OF ml] m have "x = t ! Suc m" by simp
      moreover from m(1) False have "Suc m < i" by (auto simp: k_def split: if_splits)
      ultimately show ?thesis by blast
    qed
    with first show "\<not> is_window_or_help x" by auto
  qed
  from a b c show ?thesis unfolding rest_def k_def by blast
qed

subsection \<open>What \<open>activate\<close> leaves behind\<close>

lemma keepsD:
  "keeps m \<Longrightarrow> m s = (r, s') \<Longrightarrow>
   template s' = template s \<and> disposables s' = disposables s \<and>
   errorReporterDisposable s' = errorReporterDisposable s"
  unfolding keeps_def by blast

lemma keeps_ret: "keeps (ret x)"
  by (simp add: keeps_def ret_def)

lemma keeps_throw: "keeps (throw err)"
  by (simp add: keeps_def throw_def)

lemma keeps_call_host: "keeps (call_host h c)"
  by (auto simp: keeps_def call_host_def split: reply.splits)

lemma keeps_seq:
  assumes "keeps m" and "\<And>x. keeps (f x)"
  shows "keeps (seq m f)"
  unfolding keeps_def
proof (intro allI impI)
  fix s r s' assume a: "seq m f s = (r, s')"
  obtain r1 s1 where m: "m s = (r1, s1)" by (cases "m s")
  note k1 = keepsD[OF assms(1) m]
  show "template s' = template s \<and> disposables s' = disposables s \<and>
        errorReporterDisposable s' = errorReporterDisposable s"
  proof (cases r1)
    case (Inl err)
    with a m have "s' = s1" by (simp add: seq_def)
    with k1 show ?thesis by simp
  next
    case (Inr x)
    with a m have "f x s1 = (r, s')" by (simp add: seq_def)
    from keepsD[OF assms(2) this] k1 show ?thesis by simp
  qed
qed

lemma keeps_forEach:
  assumes "\<And>x. keeps (body x)"
  shows "keeps (forEach body xs)"
  by (induction xs) (simp_all add: keeps_ret keeps_seq assms)

lemma keeps_with_feature:
  assumes "\<And>f. keeps (body f)"
  shows "keeps (with_feature fs fname body)"
  by (simp add: with_feature_def keeps_throw assms split: option.splits)

lemma keeps_activate_features: "keeps (activate_features h fs)"
  unfolding activate_features_def
  by (intro keeps_forEach keeps_with_feature keeps_seq keeps_call_host)
     (simp add: keeps_seq keeps_call_host keeps_ret)

lemma keeps_install_recommended: "keeps (install_recommended h)"
  unfolding install_recommended_def
  by (intro keeps_seq keeps_call_host)
     (simp add: keeps_seq keeps_call_host keeps_ret)

lemma call_host_Inr:
  "call_host h c s = (Inr v, s') \<longleftrightarrow>
   reply h (trace s) c = Returns v \<and>
   s' = s\<lparr>trace := trace s @ [c], observers := after_call c (length (trace s)) (observers s)\<rparr>"
  by (auto simp: call_host_def split: reply.splits)

lemma disposables_add_Inr:
  "disposables_add d s = (Inr u, s') \<longleftrightarrow>
   (\<exists>ds. disposables s = Some ds \<and> s' = s\<lparr>disposables := Some (ds @ [d])\<rparr>)"
  by (auto simp: disposables_add_def split: option.splits)

lemma quietD: "quiet m \<Longrightarrow> m s = (r, s') \<Longrightarrow> observers s' = observers s"
  unfolding quiet_def by blast

lemma quiet_ret: "quiet (ret x)"
  by (simp add: quiet_def ret_def)

lemma quiet_throw: "quiet (throw err)"
  by (simp add: quiet_def throw_def)

lemma quiet_call_host:
  assumes "\<And>n obs. after_call c n obs = obs"
  shows "quiet (call_host h c)"
  using assms by (auto simp: quiet_def call_host_def split: reply.splits)

lemma quiet_seq:
  assumes "quiet m" and "\<And>x. quiet (f x)"
  shows "quiet (seq m f)"
  unfolding quiet_def
proof (intro allI impI)
  fix s r s' assume a: "seq m f s = (r, s')"
  obtain r1 s1 where m: "m s = (r1, s1)" by (cases "m s")
  note k1 = quietD[OF assms(1) m]
  show "observers s' = observers s"
  proof (cases r1)
    case (Inl err)
    with a m have "s' = s1" by (simp add: seq_def)
    with k1 show ?thesis by simp
  next
    case (Inr x)
    with a m have "f x s1 = (r, s')" by (simp add: seq_def)
    from quietD[OF assms(2) this] k1 show ?thesis by simp
  qed
qed

lemma quiet_forEach:
  assumes "\<And>x. quiet (body x)"
  shows "quiet (forEach body xs)"
  by (induction xs) (simp_all add: quiet_ret quiet_seq assms)

lemma quiet_with_feature:
  assumes "\<And>f. quiet (body f)"
  shows "quiet (with_feature fs fname body)"
  by (simp add: with_feature_def quiet_throw assms split: option.splits)

lemma quiet_activate_features: "quiet (activate_features h fs)"
  unfolding activate_features_def
  by (intro quiet_forEach quiet_with_feature quiet_seq quiet_call_host)
     (simp_all add: quiet_seq quiet_call_host quiet_ret)

lemma quiet_install_recommended: "quiet (install_recommended h)"
  unfolding install_recommended_def
  by (intro quiet_seq quiet_call_host)
     (simp_all add: quiet_seq quiet_call_host quiet_ret)

lemma install_menu_Inr:
  assumes "install_menu h version s = (Inr u, s1)"
  shows "template s1 = menu_merge h (template s) (Nuclide_menu version)
       \<and> disposables s1 = Some [MenuDisposable]
       \<and> errorReporterDisposable s1 \<noteq> None
       \<and> observers s1 = observers s"
  using assms unfolding install_menu_def
  by (auto simp: seq_Inr call_host_Inr disposables_add_Inr assert_that_def invariant_def
      split: if_splits)

lemma reorder_menu_result:
  assumes "reorder_menu h s = (r, s1)"
  shows "template s1 = reorder_template (template s)
       \<and> disposables s1 = disposables s
       \<and> errorReporterDisposable s1 = errorReporterDisposable s
       \<and> observers s1 = observers s"
proof (cases "findIndex is_window_or_help (template s) = -1")
  case True
  with assms show ?thesis by (simp add: reorder_menu_def reorder_template_def)
next
  case False
  with assms show ?thesis
    by (auto simp: reorder_menu_def seq_def call_host_def ret_def split: reply.splits)
qed

lemma config_onDidChange_Inr:
  "config_onDidChange h keyPath cb s = (Inr w, s') \<longleftrightarrow>
   (\<exists>v. reply h (trace s) (ConfigOnDidChange keyPath cb) = Returns v) \<and>
   w = ConfigWatcher (length (trace s)) \<and>
   s' = s\<lparr>trace := trace s @ [ConfigOnDidChange keyPath cb],
          observers := observers s @ [(length (trace s), keyPath, cb)]\<rparr>"
  by (auto simp: config_onDidChange_def call_host_def split: reply.splits)

lemma watch_loop:
  assumes "forEach (\<lambda>fname. with_feature fs fname (\<lambda>f.
        seq (config_onDidChange h (useKeyPath f) (UseChanged fname f)) (\<lambda>watcher.
        seq (\<lambda>s. (invariant (disposables s \<noteq> None), s)) (\<lambda>u.
          disposables_add watcher)))) names s = (Inr u, s')"
  shows "template s' = template s
       \<and> errorReporterDisposable s' = errorReporterDisposable s
       \<and> map snd (observers s') = map snd (observers s) @ concat (map (observer_of fs) names)"
  using assms
proof (induction names arbitrary: s)
  case Nil
  then show ?case by (simp add: ret_def)
next
  case (Cons fname names)
  from Cons.prems(1) obtain x s1 where
    body: "with_feature fs fname (\<lambda>f.
        seq (config_onDidChange h (useKeyPath f) (UseChanged fname f)) (\<lambda>watcher.
        seq (\<lambda>s. (invariant (disposables s \<noteq> None), s)) (\<lambda>u.
          disposables_add watcher))) s = (Inr x, s1)"
    and rest: "forEach (\<lambda>fname. with_feature fs fname (\<lambda>f.
        seq (config_onDidChange h (useKeyPath f) (UseChanged fname f)) (\<lambda>watcher.
        seq (\<lambda>s. (invariant (disposables s \<noteq> None), s)) (\<lambda>u.
          disposables_add watcher)))) names s1 = (Inr u, s')"
    by (auto simp: seq_Inr)
  from body obtain f where f: "map_of fs fname = Some f"
    by (cases "map_of fs fname") (auto simp: with_feature_def throw_def)
  from body f have s1: "template s1 = template s"
    "errorReporterDisposable s1 = errorReporterDisposable s"
    "map snd (observers s1) = map snd (observers s) @ [(useKeyPath f, UseChanged fname f)]"
    by (auto simp: with_feature_def seq_Inr config_onDidChange_Inr disposables_add_Inr invariant_def)
  from Cons.IH[OF rest] s1 f show ?case
    by (simp add: observer_of_def)
qed

lemma activate_Inr:
  assumes "activate h fs version s = (Inr u, s')"
  shows "template s' = reorder_template (menu_merge h (template s) (Nuclide_menu version))
       \<and> map snd (observers s') =
           map snd (observers s) @ concat (map (observer_of fs) (map fst fs))
       \<and> errorReporterDisposable s' \<noteq> None"
proof -
  from assms obtain s1 s2 s3 s4 where
    1: "install_menu h version s = (Inr (), s1)"
    and 2: "reorder_menu h s1 = (Inr (), s2)"
    and 3: "activate_features h fs s2 = (Inr (), s3)"
    and 4: "watch_features h fs s3 = (Inr (), s4)"
    and 5: "install_recommended h s4 = (Inr u, s')"
    unfolding activate_def seq_Inr by auto
  note a = install_menu_Inr[OF 1]
  note b = reorder_menu_result[OF 2]
  note c = keepsD[OF keeps_activate_features 3] quietD[OF quiet_activate_features 3]
  note d = watch_loop[OF 4[unfolded watch_features_def]]
  note e = keepsD[OF keeps_install_recommended 5] quietD[OF quiet_install_recommended 5]
  from a b c d e show ?thesis by simp
qed

text \<open>
  Claim C5.  Let \<open>activate()\<close> complete, and let \<open>t\<close> be the menu template once the
  \<open>Nuclide\<close> menu has been added.  If \<open>t\<close> has no item with role \<open>window\<close> or \<open>help\<close>, the
  template is left as \<open>t\<close>.  If the first such item is at index \<open>i\<close> and the first item
  labelled \<open>Nuclide\<close> at index \<open>j\<close>, the template becomes the other items, in their order,
  with the \<open>Nuclide\<close> item inserted at the place \<open>k\<close>; and when that item is not itself the
  first item with such a role, the item that follows it is that first item, and no item
  before it has such a role.
\<close>

theorem activate_moves_Nuclide_menu:
  assumes "activate h fs version s = (Inr u, s')"
  shows "(findIndex is_window_or_help (menu_merge h (template s) (Nuclide_menu version)) = -1 \<longrightarrow>
            template s' = menu_merge h (template s) (Nuclide_menu version))
       \<and> (\<forall>t i j rest k.
            t = menu_merge h (template s) (Nuclide_menu version) \<and>
            findIndex is_window_or_help t = int i \<and> findIndex is_Nuclide t = int j \<and>
            rest = take j t @ drop (Suc j) t \<and> k = (if j < i then i - 1 else i) \<longrightarrow>
              template s' = take k rest @ [t ! j] @ drop k rest \<and>
              (i \<noteq> j \<longrightarrow>
                 k < length rest \<and> rest ! k = t ! i \<and>
                 (\<forall>x\<in>set (take k rest). \<not> is_window_or_help x)))"
proof -
  from activate_Inr[OF assms]
  have t: "template s' = reorder_template (menu_merge h (template s) (Nuclide_menu version))"
    by simp
  show ?thesis
  proof (intro conjI allI impI)
    assume "findIndex is_window_or_help (menu_merge h (template s) (Nuclide_menu version)) = -1"
    then show "template s' = menu_merge h (template s) (Nuclide_menu version)"
      unfolding t by (rule reorder_template_none)
  next
    fix t0 i j rest k
    assume a: "t0 = menu_merge h (template s) (Nuclide_menu version) \<and>
            findIndex is_window_or_help t0 = int i \<and> findIndex is_Nuclide t0 = int j \<and>
            rest = take j t0 @ drop (Suc j) t0 \<and> k = (if j < i then i - 1 else i)"
    then have t0: "menu_merge h (template s) (Nuclide_menu version) = t0"
      and i: "findIndex is_window_or_help t0 = int i" and j: "findIndex is_Nuclide t0 = int j"
      and rest: "rest = take j t0 @ drop (Suc j) t0" and k: "k = (if j < i then i - 1 else i)"
      by blast+
    show "template s' = take k rest @ [t0 ! j] @ drop k rest"
      unfolding t t0 rest k by (rule reorder_template_eq[OF i j])
  next
    fix t0 i j rest k
    assume a: "t0 = menu_merge h (template s) (Nuclide_menu version) \<and>
            findIndex is_window_or_help t0 = int i \<and> findIndex is_Nuclide t0 = int j \<and>
            rest = take j t0 @ drop (Suc j) t0 \<and> k = (if j < i then i - 1 else i)"
      and ne: "i \<noteq> j"
    then have i: "findIndex is_window_or_help t0 = int i" and j: "findIndex is_Nuclide t0 = int j"
      and rest: "rest = take j t0 @ drop (Suc j) t0" and k: "k = (if j < i then i - 1 else i)"
      by blast+
    note b = reorder_template_before[OF i j ne, folded rest, folded k]
    from b show "k < length rest" by (rule conjunct1)
    from b show "rest ! k = t0 ! i" by (rule conjunct1[OF conjunct2])
    from b show "\<forall>x\<in>set (take k rest). \<not> is_window_or_help x" by (rule conjunct2[OF conjunct2])
  qed
qed

subsection \<open>Properties of the watchers\<close>

lemma observer_of_member:
  assumes "distinct (map fst fs)" and "(k, f) \<in> set fs"
  shows "observer_of fs k = [(useKeyPath f, UseChanged k f)]"
  using assms by (simp add: observer_of_def)

lemma concat_singletons:
  "\<forall>x\<in>set xs. g x = [k x] \<Longrightarrow> concat (map g xs) = map k xs"
  by (induction xs) simp_all

lemma concat_observers:
  assumes "distinct (map fst fs)"
  shows "concat (map (observer_of fs) (map fst fs)) =
         map (\<lambda>(k, f). (useKeyPath f, UseChanged k f)) fs"
proof -
  have "\<forall>p\<in>set fs. (observer_of fs \<circ> fst) p =
      [case p of (k, f) \<Rightarrow> (useKeyPath f, UseChanged k f)]"
  proof
    fix p assume "p \<in> set fs"
    moreover obtain k f where "p = (k, f)" by (cases p)
    ultimately show "(observer_of fs \<circ> fst) p = [case p of (k, f) \<Rightarrow> (useKeyPath f, UseChanged k f)]"
      using observer_of_member[OF assms, of k f] by simp
  qed
  from concat_singletons[OF this] show ?thesis by (simp add: comp_def)
qed

lemma filter_observers:
  assumes "distinct (map fst fs)" and "\<forall>(k, f)\<in>set fs. useKeyPath f = key k" and "inj key"
    and "(fname, f) \<in> set fs"
  shows "filter (\<lambda>ob. fst ob = key fname) (map (\<lambda>(k, f). (useKeyPath f, UseChanged k f)) fs) =
         [(key fname, UseChanged fname f)]"
  using assms
proof (induction fs)
  case Nil
  then show ?case by simp
next
  case (Cons p fs)
  obtain k g where p: "p = (k, g)" by (cases p)
  from Cons.prems(2) p have kp: "useKeyPath g = key k"
    and kps: "\<forall>(k, f)\<in>set fs. useKeyPath f = key k" by auto
  from Cons.prems(1) p have d: "distinct (map fst fs)" and nk: "k \<notin> fst ` set fs" by auto
  show ?case
  proof (cases "k = fname")
    case True
    with Cons.prems(1,4) p have fg: "f = g" by force
    have "filter (\<lambda>ob. fst ob = key fname) (map (\<lambda>(k, f). (useKeyPath f, UseChanged k f)) fs) = []"
    proof -
      have "\<forall>q\<in>set fs. fst (case q of (k, f) \<Rightarrow> (useKeyPath f, UseChanged k f)) \<noteq> key fname"
      proof
        fix q assume q: "q \<in> set fs"
        obtain k' g' where q': "q = (k', g')" by (cases q)
        with q kps have "useKeyPath g' = key k'" by auto
        moreover from q q' nk True have "k' \<noteq> fname" by force
        ultimately show "fst (case q of (k, f) \<Rightarrow> (useKeyPath f, UseChanged k f)) \<noteq> key fname"
          using Cons.prems(3) by (simp add: q' inj_eq)
      qed
      then show ?thesis by (simp add: filter_empty_conv)
    qed
    with True kp fg p show ?thesis by simp
  next
    case False
    with Cons.prems(4) p have "(fname, f) \<in> set fs" by auto
    from Cons.IH[OF d kps Cons.prems(3) this] False kp p Cons.prems(3) show ?thesis
      by (simp add: inj_eq)
  qed
qed

lemma attempt_no_activation: "ActivatePackage d \<notin> set (attempt h tr fname suppress)"
  by (auto simp: attempt_def logged_def split: reply.splits sum.splits)

lemma attempt_starts_with_query:
  "\<exists>rest. attempt h tr fname suppress = GetLoadedPackage fname # rest"
  by (simp add: attempt_def)

lemma attempt_deactivates_when_loaded:
  assumes "reply h tr (GetLoadedPackage fname) = Returns pack"
  shows "DeactivatePackage fname suppress \<in> set (attempt h tr fname suppress) \<longleftrightarrow> not_null pack"
  using assms by (auto simp: attempt_def)

text \<open>
  Claim C7.  Let \<open>activate()\<close> have completed on a table of features with distinct names,
  each with the key path \<open>nuclide.use.<name>\<close>, from a state where the editor held no
  callback for the key path of the feature \<open>fname\<close>; and let the editor hold the same
  callbacks still.  Then the editor holds, for that key path, the callback that
  \<open>activate()\<close> has registered.  When the value at the key path changes to \<open>true\<close>, the
  feature's package is activated, and nothing else is called; when it changes to \<open>false\<close>,
  the package is looked up and, if it is loaded, deactivated, and no package is activated;
  when it changes to any other value, nothing is called.
\<close>

theorem use_change_toggles_feature:
  assumes act: "activate h fs version s = (Inr u, s')"
    and before: "\<forall>ob\<in>set (observers s). fst (snd ob) \<noteq> ''nuclide.use.'' @ fname"
    and wf: "distinct (map fst fs)" "\<forall>(k, f)\<in>set fs. useKeyPath f = ''nuclide.use.'' @ k"
    and feature: "(fname, f) \<in> set fs"
    and still: "observers s2 = observers s'"
  shows "filter (\<lambda>ob. fst ob = ''nuclide.use.'' @ fname) (map snd (observers s'))
           = [(''nuclide.use.'' @ fname, UseChanged fname f)]
       \<and> (newValue = Bool True \<longrightarrow>
            snd (config_did_change h (''nuclide.use.'' @ fname) newValue s2)
              = s2\<lparr>trace := trace s2 @ [ActivatePackage (dirname f)]\<rparr>)
       \<and> (newValue = Bool False \<longrightarrow>
            snd (config_did_change h (''nuclide.use.'' @ fname) newValue s2)
              = s2\<lparr>trace := trace s2 @ attempt h (trace s2) fname Undefined\<rparr>
            \<and> (\<exists>rest. attempt h (trace s2) fname Undefined = GetLoadedPackage fname # rest)
            \<and> (\<forall>d. ActivatePackage d \<notin> set (attempt h (trace s2) fname Undefined))
            \<and> (\<forall>pack. reply h (trace s2) (GetLoadedPackage fname) = Returns pack \<longrightarrow>
                  (DeactivatePackage fname Undefined \<in> set (attempt h (trace s2) fname Undefined)
                     \<longleftrightarrow> not_null pack)))
       \<and> (newValue \<noteq> Bool True \<and> newValue \<noteq> Bool False \<longrightarrow>
            config_did_change h (''nuclide.use.'' @ fname) newValue s2 = (Inr (), s2))"
proof -
  define key where "key = (\<lambda>k. ''nuclide.use.'' @ k)"
  have inj: "inj key" by (simp add: key_def inj_def)
  from wf(2) have kps: "\<forall>(k, f)\<in>set fs. useKeyPath f = key k" by (simp add: key_def)
  from before have none: "filter (\<lambda>ob. fst ob = key fname) (map snd (observers s)) = []"
    by (auto simp: key_def filter_empty_conv)
  from activate_Inr[OF act]
  have obs: "map snd (observers s') =
      map snd (observers s) @ map (\<lambda>(k, f). (useKeyPath f, UseChanged k f)) fs"
    unfolding concat_observers[OF wf(1)] by simp
  have "filter (\<lambda>ob. fst ob = key fname) (map snd (observers s')) = [(key fname, UseChanged fname f)]"
    unfolding obs filter_append none
    using filter_observers[OF wf(1) kps inj feature] by simp
  then have w: "filter (\<lambda>ob. fst ob = ''nuclide.use.'' @ fname) (map snd (observers s')) =
      [(''nuclide.use.'' @ fname, UseChanged fname f)]"
    unfolding key_def .
  have run: "config_did_change h (''nuclide.use.'' @ fname) newValue s2 =
      seq (use_changed h fname f newValue) (\<lambda>u. ret ()) s2"
    unfolding config_did_change_def still w by (simp add: run_callback_def)
  have 1: "snd (config_did_change h (''nuclide.use.'' @ fname) newValue s2)
              = s2\<lparr>trace := trace s2 @ [ActivatePackage (dirname f)]\<rparr>" if "newValue = Bool True"
    unfolding run using that
    by (simp add: use_changed_def seq_def call_host_def ret_def split: reply.splits)
  have 2: "snd (config_did_change h (''nuclide.use.'' @ fname) newValue s2)
              = s2\<lparr>trace := trace s2 @ attempt h (trace s2) fname Undefined\<rparr>"
    if "newValue = Bool False"
  proof -
    have "snd (seq (safeDeactivate h fname Undefined) (\<lambda>u. ret ()) s2) =
        snd (safeDeactivate h fname Undefined s2)"
      by (cases "safeDeactivate h fname Undefined s2") (auto simp: seq_def ret_def split: sum.splits)
    with that show ?thesis
      unfolding run by (simp add: use_changed_def safeDeactivate_state)
  qed
  have 3: "config_did_change h (''nuclide.use.'' @ fname) newValue s2 = (Inr (), s2)"
    if "newValue \<noteq> Bool True \<and> newValue \<noteq> Bool False"
    unfolding run using that
    by (simp add: use_changed_def seq_def ret_def)
  from w 1 2 3 attempt_no_activation attempt_starts_with_query attempt_deactivates_when_loaded
  show ?thesis
    by (intro conjI impI allI) blast+
qed

lemma example_activate:
  "activate example_host [(''bar'', bar_feature)] ''0.2.0'' loaded_state = (Inr (), active_state)"
  by (simp add: activate_def install_menu_def reorder_menu_def reorder_template_def
      activate_features_def watch_features_def install_recommended_def with_feature_def
      seq_def ret_def call_host_def assert_that_def invariant_def not_null_def disposables_add_def
      findIndex_def splice_delete_def splice_insert_def splice_start_def
      is_window_or_help_def is_Nuclide_def Nuclide_menu_def Nuclide_item_def
      config_onDidChange_def bar_feature_def
      example_host_def host_throwing_def loaded_state_def active_state_def bar_observer_def
      File_item_def Edit_item_def Window_item_def Help_item_def Let_def)

theorem activate_moves_Nuclide_menu_witness:
  "activate example_host [(''bar'', bar_feature)] ''0.2.0'' loaded_state = (Inr (), active_state)
   \<and> menu_merge example_host (template loaded_state) (Nuclide_menu ''0.2.0'')
       = [File_item, Edit_item, Window_item, Help_item, Nuclide_item]
   \<and> template active_state = [File_item, Edit_item, Nuclide_item, Window_item, Help_item]"
proof -
  let ?t = "[File_item, Edit_item, Window_item, Help_item, Nuclide_item]"
  have t: "menu_merge example_host (template loaded_state) (Nuclide_menu ''0.2.0'') = ?t"
    by (simp add: example_host_def host_throwing_def loaded_state_def Nuclide_menu_def Nuclide_item_def)
  have i: "findIndex is_window_or_help ?t = int 2"
    by (simp add: findIndex_def is_window_or_help_def File_item_def Edit_item_def Window_item_def)
  have j: "findIndex is_Nuclide ?t = int 4"
    by (simp add: findIndex_def is_Nuclide_def File_item_def Edit_item_def Window_item_def
        Help_item_def Nuclide_item_def)
  from activate_moves_Nuclide_menu[OF example_activate]
  have "\<forall>t i j rest k.
            t = menu_merge example_host (template loaded_state) (Nuclide_menu ''0.2.0'') \<and>
            findIndex is_window_or_help t = int i \<and> findIndex is_Nuclide t = int j \<and>
            rest = take j t @ drop (Suc j) t \<and> k = (if j < i then i - 1 else i) \<longrightarrow>
              template active_state = take k rest @ [t ! j] @ drop k rest \<and>
              (i \<noteq> j \<longrightarrow>
                 k < length rest \<and> rest ! k = t ! i \<and>
                 (\<forall>x\<in>set (take k rest). \<not> is_window_or_help x))"
    by (rule conjunct2)
  from this[rule_format, of ?t 2 4 "take 4 ?t @ drop (Suc 4) ?t" 2] t i j
  have "template active_state =
      take 2 (take 4 ?t @ drop (Suc 4) ?t) @ [?t ! 4] @ drop 2 (take 4 ?t @ drop (Suc 4) ?t)"
    by simp
  then have "template active_state = [File_item, Edit_item, Nuclide_item, Window_item, Help_item]"
    by simp
  with example_activate t show ?thesis by simp
qed

theorem use_change_toggles_feature_witness:
  "snd (config_did_change example_host ''nuclide.use.bar'' (Bool True) active_state)
     = active_state\<lparr>trace := trace active_state @ [ActivatePackage [''nuclide'', ''pkg'', ''bar'']]\<rparr>
   \<and> snd (config_did_change example_host ''nuclide.use.bar'' (Bool False) active_state)
     = active_state\<lparr>trace := trace active_state @
          [GetLoadedPackage ''bar'', DeactivatePackage ''bar'' Undefined,
           ConsoleError (''Error deactivating '' @ [CHR 0x22] @ ''bar'' @ [CHR 0x22] @ '': service is gone'')]\<rparr>
   \<and> config_did_change example_host ''nuclide.use.bar'' (Str ''yes'') active_state
     = (Inr (), active_state)"
proof -
  have wf: "distinct (map fst [(''bar'', bar_feature)])"
    "\<forall>(k, f)\<in>set [(''bar'', bar_feature)]. useKeyPath f = ''nuclide.use.'' @ k"
    by (simp_all add: bar_feature_def)
  have m: "(''bar'', bar_feature) \<in> set [(''bar'', bar_feature)]" by simp
  have b: "\<forall>ob\<in>set (observers loaded_state). fst (snd ob) \<noteq> ''nuclide.use.'' @ ''bar''"
    by (simp add: loaded_state_def)
  have d: "dirname bar_feature = [''nuclide'', ''pkg'', ''bar'']" by (simp add: bar_feature_def)
  have a: "attempt example_host (trace active_state) ''bar'' Undefined =
      [GetLoadedPackage ''bar'', DeactivatePackage ''bar'' Undefined,
       ConsoleError (''Error deactivating '' @ [CHR 0x22] @ ''bar'' @ [CHR 0x22] @ '': service is gone'')]"
    by (simp add: attempt_def logged_def bind_def example_host_def host_throwing_def not_null_def)
  note th = use_change_toggles_feature[OF example_activate b wf m refl]
  from th[of "Bool True"] d
  have 1: "snd (config_did_change example_host ''nuclide.use.bar'' (Bool True) active_state)
     = active_state\<lparr>trace := trace active_state @ [ActivatePackage [''nuclide'', ''pkg'', ''bar'']]\<rparr>"
    by simp
  from th[of "Bool False"] a
  have 2: "snd (config_did_change example_host ''nuclide.use.bar'' (Bool False) active_state)
     = active_state\<lparr>trace := trace active_state @
          [GetLoadedPackage ''bar'', DeactivatePackage ''bar'' Undefined,
           ConsoleError (''Error deactivating '' @ [CHR 0x22] @ ''bar'' @ [CHR 0x22] @ '': service is gone'')]\<rparr>"
    by simp
  from th[of "Str ''yes''"]
  have 3: "config_did_change example_host ''nuclide.use.bar'' (Str ''yes'') active_state
     = (Inr (), active_state)"
    by simp
  from 1 2 3 show ?thesis by simp
qed

subsection \<open>The table that discovery builds\<close>

lemma read_ide_feature_Some:
  "read_ide_feature e item = Inr (Some (k, f)) \<Longrightarrow> useKeyPath f = ''nuclide.use.'' @ k"
  by (auto simp: read_ide_feature_def Let_def bind_Inr_iff new_feature_Inr)

lemma read_feature_keyPath:
  "read_feature e item = Inr (Some (k, f)) \<Longrightarrow> useKeyPath f = ''nuclide.use.'' @ k"
  unfolding read_feature_Some new_feature_Inr by auto

text \<open>
  The table that discovery builds has distinct names, none of them \<open>__proto__\<close>, and gives
  every feature the key path \<open>nuclide.use.<name>\<close>.
\<close>

lemma discovered_features_wf:
  assumes "discover e = Inr fs"
  shows "distinct (map fst fs)"
    and "\<forall>(k, f)\<in>set fs. useKeyPath f = ''nuclide.use.'' @ k"
    and "''__proto__'' \<notin> fst ` set fs"
proof -
  from assms obtain fs1 items1 items2 where
    l1: "forEach_item (read_feature e) items1 [] = Inr fs1"
    and l2: "forEach_item (read_ide_feature e) items2 fs1 = Inr fs"
    by (auto simp: discover_def discover_pkg_def bind_Inr_iff)
  from forEach_item_distinct[OF l1] have d1: "distinct (map fst fs1)" by simp
  from forEach_item_distinct[OF l2 d1] show "distinct (map fst fs)" .
  note a = forEach_item_Inr[OF l1]
  note b = forEach_item_Inr[OF l2]
  have k1: "\<forall>(k, f)\<in>set fs1. useKeyPath f = ''nuclide.use.'' @ k"
  proof (clarify)
    fix k f assume "(k, f) \<in> set fs1"
    with a[THEN conjunct2, THEN conjunct2] obtain item where "read_feature e item = Inr (Some (k, f))"
      by fastforce
    then show "useKeyPath f = ''nuclide.use.'' @ k" by (rule read_feature_keyPath)
  qed
  show "\<forall>(k, f)\<in>set fs. useKeyPath f = ''nuclide.use.'' @ k"
  proof (clarify)
    fix k f assume "(k, f) \<in> set fs"
    with b[THEN conjunct2, THEN conjunct2]
    have "(k, f) \<in> set fs1 \<or> (\<exists>item. read_ide_feature e item = Inr (Some (k, f)))"
      by fastforce
    then show "useKeyPath f = ''nuclide.use.'' @ k"
      using k1 read_ide_feature_Some by fastforce
  qed
  from a[THEN conjunct2, THEN conjunct1] have "''__proto__'' \<notin> fst ` set fs1" by simp
  with b[THEN conjunct2, THEN conjunct1] show "''__proto__'' \<notin> fst ` set fs" by simp
qed

subsection \<open>Properties of pane item visibility\<close>

lemma set_update_distinct:
  "distinct (map fst m) \<Longrightarrow> set (AList.update k v m) = insert (k, v) {(q, j). (q, j) \<in> set m \<and> q \<noteq> k}"
  by (induction m) (auto simp: rev_image_eqI)

lemma set_delete: "set (AList.delete k m) = {(q, j). (q, j) \<in> set m \<and> q \<noteq> k}"
  by (induction m) auto

lemma scan_distinct:
  "distinct (map fst m) \<Longrightarrow> distinct (map fst (scan_accumulator m a))"
  by (cases a) (auto simp: scan_accumulator_def distinct_update distinct_delete split: option.splits)

lemma set_scan:
  "distinct (map fst m) \<Longrightarrow>
   set (scan_accumulator m (p, current)) =
     {(q, j). (q, j) \<in> set m \<and> q \<noteq> p} \<union> (case current of Some i \<Rightarrow> {(p, i)} | None \<Rightarrow> {})"
  by (cases current) (auto simp: scan_accumulator_def set_update_distinct set_delete)

lemma active_items_set:
  "set (active_items cs w) = {i. \<exists>p c. (p, c, Some i) \<in> set (panes w) \<and> c \<in> set cs}"
  by (auto simp: active_items_def split: option.splits if_splits)

lemma agrees_values:
  assumes "agrees cs w" and "connected w"
  shows "set (map snd (panesToActiveItem w)) = set (active_items cs w)"
proof -
  from assms have "set (panesToActiveItem w) =
      {(pane, i). \<exists>c. (pane, c, Some i) \<in> set (panes w) \<and> c \<in> set cs}"
    by (simp add: agrees_def)
  then show ?thesis unfolding active_items_set by force
qed


lemma observe_all:
  fixes w :: "('c, 'p, 'i) world"
  assumes "distinct (map fst (panesToActiveItem w))"
    and "\<forall>p i j. (p, i) \<in> set L \<longrightarrow> (p, j) \<in> set L \<longrightarrow> i = j"
  shows "panes (foldl (\<lambda>w (pane, current). observe_pane pane current w) w L) = panes w
       \<and> subscribers (foldl (\<lambda>w (pane, current). observe_pane pane current w) w L) = subscribers w
       \<and> distinct (map fst (panesToActiveItem (foldl (\<lambda>w (pane, current). observe_pane pane current w) w L)))
       \<and> set (observedPanes (foldl (\<lambda>w (pane, current). observe_pane pane current w) w L))
           = set (observedPanes w) \<union> fst ` set L
       \<and> set (panesToActiveItem (foldl (\<lambda>w (pane, current). observe_pane pane current w) w L))
           = {(q, j). (q, j) \<in> set (panesToActiveItem w) \<and> q \<notin> fst ` set L}
             \<union> {(p, i). (p, Some i) \<in> set L}"
  using assms(2)
proof (induction L rule: rev_induct)
  case Nil
  then show ?case using assms(1) by simp
next
  case (snoc x L)
  obtain p current where x: "x = (p, current)" by (cases x)
  let ?w = "foldl (\<lambda>w (pane, current). observe_pane pane current w) w L"
  have fn: "\<forall>p i j. (p, i) \<in> set L \<longrightarrow> (p, j) \<in> set L \<longrightarrow> i = j"
    using snoc.prems by auto
  note ih = snoc.IH[OF fn]
  from ih have d: "distinct (map fst (panesToActiveItem ?w))" by blast
  have only: "\<And>j. (p, j) \<in> set L \<Longrightarrow> j = current"
    using snoc.prems x by auto
  have step: "foldl (\<lambda>w (pane, current). observe_pane pane current w) w (L @ [x]) =
      observe_pane p current ?w" by (simp add: x)
  have m: "set (panesToActiveItem (observe_pane p current ?w)) =
      {(q, j). (q, j) \<in> set (panesToActiveItem ?w) \<and> q \<noteq> p} \<union>
      (case current of Some i \<Rightarrow> {(p, i)} | None \<Rightarrow> {})"
    using set_scan[OF d] by (simp add: observe_pane_def item_activation_def)
  have "set (panesToActiveItem (observe_pane p current ?w)) =
      {(q, j). (q, j) \<in> set (panesToActiveItem w) \<and> q \<notin> fst ` set (L @ [x])}
             \<union> {(p, i). (p, Some i) \<in> set (L @ [x])}"
    unfolding m ih[THEN conjunct2, THEN conjunct2, THEN conjunct2, THEN conjunct2] x
    using only by (cases current) (auto simp: rev_image_eqI)
  moreover have "set (observedPanes (observe_pane p current ?w)) = set (observedPanes w) \<union> fst ` set (L @ [x])"
    using ih x by (auto simp: observe_pane_def item_activation_def)
  moreover have "distinct (map fst (panesToActiveItem (observe_pane p current ?w)))"
    using scan_distinct[OF d] by (simp add: observe_pane_def item_activation_def)
  moreover have "panes (observe_pane p current ?w) = panes w"
    "subscribers (observe_pane p current ?w) = subscribers w"
    using ih by (simp_all add: observe_pane_def item_activation_def)
  ultimately show ?case unfolding step by blast
qed


lemma connected_simps:
  "connected (w\<lparr>panes := ps\<rparr>) = connected w"
  "connected (w\<lparr>observedPanes := ob\<rparr>) = connected w"
  "connected (w\<lparr>panesToActiveItem := m\<rparr>) = connected w"
  "connected (w\<lparr>scheduled := b\<rparr>) = connected w"
  "connected (item_activation a w) = connected w"
  "connected (observe_pane p current w) = connected w"
  by (simp_all add: connected_def item_activation_def observe_pane_def)

lemma agrees_AddPane:
  assumes "agrees cs w"
  shows "agrees cs (step cs w (AddPane c p current))"
proof (cases "p \<in> fst ` set (panes w)")
  case True
  with assms show ?thesis by (simp add: step_def)
next
  case False
  then have new: "\<And>c i. (p, c, i) \<notin> set (panes w)" by force
  from assms have d: "distinct (map fst (panesToActiveItem w))" by (simp add: agrees_def)
  show ?thesis
  proof (cases "connected w")
    case nc: False
    with assms False show ?thesis
      by (auto simp: step_def agrees_def Let_def connected_simps)
  next
    case con: True
    from assms con have ob: "set (observedPanes w) = {pane. \<exists>c i. (pane, c, i) \<in> set (panes w) \<and> c \<in> set cs}"
      and mp: "set (panesToActiveItem w) =
             {(pane, i). \<exists>c. (pane, c, Some i) \<in> set (panes w) \<and> c \<in> set cs}"
      by (simp_all add: agrees_def)
    from mp new have nomap: "\<And>j. (p, j) \<notin> set (panesToActiveItem w)" by auto
    show ?thesis
    proof (cases "c \<in> set cs")
      case False
      with assms con \<open>p \<notin> fst ` set (panes w)\<close> show ?thesis
        by (auto simp: step_def agrees_def Let_def connected_simps)
    next
      case True
      have "set (panesToActiveItem (observe_pane p current (w\<lparr>panes := panes w @ [(p, c, current)]\<rparr>))) =
          {(pane, i). \<exists>c'. (pane, c', Some i) \<in> set (panes w @ [(p, c, current)]) \<and> c' \<in> set cs}"
        using set_scan[OF d, of p current] mp new True
        by (cases current) (auto simp: observe_pane_def item_activation_def)
      moreover have "set (observedPanes (observe_pane p current (w\<lparr>panes := panes w @ [(p, c, current)]\<rparr>))) =
          {pane. \<exists>c' i. (pane, c', i) \<in> set (panes w @ [(p, c, current)]) \<and> c' \<in> set cs}"
        using ob True by (auto simp: observe_pane_def item_activation_def)
      moreover have "distinct (map fst (panesToActiveItem (observe_pane p current (w\<lparr>panes := panes w @ [(p, c, current)]\<rparr>))))"
        using scan_distinct[OF d] by (simp add: observe_pane_def item_activation_def)
      moreover have "distinct (map fst (panes w @ [(p, c, current)]))"
        using assms \<open>p \<notin> fst ` set (panes w)\<close> by (simp add: agrees_def)
      ultimately show ?thesis
        using con True \<open>p \<notin> fst ` set (panes w)\<close>
        by (simp add: step_def agrees_def Let_def connected_simps observe_pane_def item_activation_def)
    qed
  qed
qed


lemma observed_connected:
  assumes "agrees cs w" and "p \<in> set (observedPanes w)"
  shows "connected w"
  using assms by (auto simp: agrees_def split: if_splits)

lemma agrees_ActivateItem:
  assumes "agrees cs w"
  shows "agrees cs (step cs w (ActivateItem p i))"
proof (cases "map_of (panes w) p")
  case None
  with assms show ?thesis by (simp add: step_def)
next
  case (Some cc)
  obtain c current where cc: "cc = (c, current)" by (cases cc)
  from assms have dp: "distinct (map fst (panes w))" and d: "distinct (map fst (panesToActiveItem w))"
    by (simp_all add: agrees_def)
  from Some cc dp have mem: "(p, c, current) \<in> set (panes w)" by simp
  have uniq: "\<And>c' x. (p, c', x) \<in> set (panes w) \<Longrightarrow> c' = c \<and> x = current"
    using dp mem by (metis Pair_inject eq_key_imp_eq_value)
  let ?ps = "AList.update p (c, i) (panes w)"
  have ps: "set ?ps = insert (p, c, i) {(q, x). (q, x) \<in> set (panes w) \<and> q \<noteq> p}"
    using set_update_distinct[OF dp] by simp
  have dps: "distinct (map fst ?ps)" using dp by (simp add: distinct_update)
  show ?thesis
  proof (cases "current = i")
    case True
    with assms Some cc show ?thesis by (simp add: step_def)
  next
    case ne: False
    show ?thesis
    proof (cases "p \<in> set (observedPanes w)")
      case True
      from observed_connected[OF assms True] have con: "connected w" .
      from assms con have ob: "set (observedPanes w) = {pane. \<exists>c i. (pane, c, i) \<in> set (panes w) \<and> c \<in> set cs}"
        and mp: "set (panesToActiveItem w) =
             {(pane, i). \<exists>c. (pane, c, Some i) \<in> set (panes w) \<and> c \<in> set cs}"
        by (simp_all add: agrees_def)
      from True ob uniq have ccs: "c \<in> set cs" by auto
      have st: "step cs w (ActivateItem p i) = item_activation (p, i) (w\<lparr>panes := ?ps\<rparr>)"
        using Some cc ne True by (simp add: step_def Let_def)
      have 1: "set (panesToActiveItem (item_activation (p, i) (w\<lparr>panes := ?ps\<rparr>))) =
          {(pane, j). \<exists>c'. (pane, c', Some j) \<in> set ?ps \<and> c' \<in> set cs}"
        unfolding ps using set_scan[OF d, of p i] mp ccs
        by (cases i) (auto simp: item_activation_def)
      have 2: "set (observedPanes (item_activation (p, i) (w\<lparr>panes := ?ps\<rparr>))) =
          {pane. \<exists>c' x. (pane, c', x) \<in> set ?ps \<and> c' \<in> set cs}"
        unfolding ps using ob mem ccs by (auto simp: item_activation_def)
      have 3: "distinct (map fst (panesToActiveItem (item_activation (p, i) (w\<lparr>panes := ?ps\<rparr>))))"
        using scan_distinct[OF d] by (simp add: item_activation_def)
      have 4: "panes (item_activation (p, i) (w\<lparr>panes := ?ps\<rparr>)) = ?ps"
        by (simp add: item_activation_def)
      show ?thesis
        unfolding st agrees_def 4 using 1 2 3 dps con by (simp add: connected_simps)
    next
      case False
      have st: "step cs w (ActivateItem p i) = w\<lparr>panes := ?ps\<rparr>"
        using Some cc ne False by (simp add: step_def Let_def)
      show ?thesis
      proof (cases "connected w")
        case nc: False
        with assms dps show ?thesis unfolding st by (simp add: agrees_def connected_simps)
      next
        case con: True
        from assms con have ob: "set (observedPanes w) = {pane. \<exists>c i. (pane, c, i) \<in> set (panes w) \<and> c \<in> set cs}"
          and mp: "set (panesToActiveItem w) =
             {(pane, i). \<exists>c. (pane, c, Some i) \<in> set (panes w) \<and> c \<in> set cs}"
          by (simp_all add: agrees_def)
        from False ob mem have ccs: "c \<notin> set cs" by auto
        have other: "\<And>q c' x. (q, c', x) \<in> set (panes w) \<Longrightarrow> c' \<in> set cs \<Longrightarrow> q \<noteq> p"
          using ccs uniq by blast
        have "{pane. \<exists>c' x. (pane, c', x) \<in> set ?ps \<and> c' \<in> set cs} =
            {pane. \<exists>c i. (pane, c, i) \<in> set (panes w) \<and> c \<in> set cs}"
          unfolding ps using ccs other by (auto; blast)
        moreover have "{(pane, j). \<exists>c'. (pane, c', Some j) \<in> set ?ps \<and> c' \<in> set cs} =
            {(pane, i). \<exists>c. (pane, c, Some i) \<in> set (panes w) \<and> c \<in> set cs}"
          unfolding ps using ccs other by (auto; blast)
        ultimately show ?thesis
          unfolding st agrees_def using ob mp d dps con by (simp add: connected_simps)
      qed
    qed
  qed
qed

lemma agrees_DestroyPane:
  assumes "agrees cs w"
  shows "agrees cs (step cs w (DestroyPane p))"
proof (cases "p \<in> fst ` set (panes w)")
  case False
  with assms show ?thesis by (simp add: step_def)
next
  case ex: True
  from assms have dp: "distinct (map fst (panes w))" and d: "distinct (map fst (panesToActiveItem w))"
    by (simp_all add: agrees_def)
  let ?ps = "AList.delete p (panes w)"
  have ps: "set ?ps = {(q, x). (q, x) \<in> set (panes w) \<and> q \<noteq> p}" by (rule set_delete)
  have dps: "distinct (map fst ?ps)" using dp by (simp add: distinct_delete)
  show ?thesis
  proof (cases "p \<in> set (observedPanes w)")
    case True
    from observed_connected[OF assms True] have con: "connected w" .
    from assms con have ob: "set (observedPanes w) = {pane. \<exists>c i. (pane, c, i) \<in> set (panes w) \<and> c \<in> set cs}"
      and mp: "set (panesToActiveItem w) =
             {(pane, i). \<exists>c. (pane, c, Some i) \<in> set (panes w) \<and> c \<in> set cs}"
      by (simp_all add: agrees_def)
    let ?w = "item_activation (p, None) (w\<lparr>panes := ?ps, observedPanes := removeAll p (observedPanes w)\<rparr>)"
    have st: "step cs w (DestroyPane p) = ?w"
      using ex True by (simp add: step_def Let_def)
    have 1: "set (panesToActiveItem ?w) =
          {(pane, j). \<exists>c'. (pane, c', Some j) \<in> set ?ps \<and> c' \<in> set cs}"
      unfolding ps using set_scan[OF d, of p None] mp by (auto simp: item_activation_def)
    have 2: "set (observedPanes ?w) = {pane. \<exists>c' x. (pane, c', x) \<in> set ?ps \<and> c' \<in> set cs}"
      unfolding ps using ob by (auto simp: item_activation_def)
    have 3: "distinct (map fst (panesToActiveItem ?w))"
      using scan_distinct[OF d] by (simp add: item_activation_def)
    have 4: "panes ?w = ?ps" by (simp add: item_activation_def)
    show ?thesis
      unfolding st agrees_def 4 using 1 2 3 dps con by (simp add: connected_simps)
  next
    case False
    have st: "step cs w (DestroyPane p) = w\<lparr>panes := ?ps\<rparr>"
      using ex False by (simp add: step_def Let_def)
    show ?thesis
    proof (cases "connected w")
      case nc: False
      with assms dps show ?thesis unfolding st by (simp add: agrees_def connected_simps)
    next
      case con: True
      from assms con have ob: "set (observedPanes w) = {pane. \<exists>c i. (pane, c, i) \<in> set (panes w) \<and> c \<in> set cs}"
        and mp: "set (panesToActiveItem w) =
             {(pane, i). \<exists>c. (pane, c, Some i) \<in> set (panes w) \<and> c \<in> set cs}"
        by (simp_all add: agrees_def)
      from False ob have out: "\<And>c x. (p, c, x) \<in> set (panes w) \<Longrightarrow> c \<notin> set cs" by auto
      have "{pane. \<exists>c' x. (pane, c', x) \<in> set ?ps \<and> c' \<in> set cs} =
            {pane. \<exists>c i. (pane, c, i) \<in> set (panes w) \<and> c \<in> set cs}"
        unfolding ps using out by (auto; blast)
      moreover have "{(pane, j). \<exists>c'. (pane, c', Some j) \<in> set ?ps \<and> c' \<in> set cs} =
            {(pane, i). \<exists>c. (pane, c, Some i) \<in> set (panes w) \<and> c \<in> set cs}"
        unfolding ps using out by (auto; blast)
      ultimately show ?thesis
        unfolding st agrees_def using ob mp d dps con by (simp add: connected_simps)
    qed
  qed
qed


lemma subscribed_on_next: "subscribed (on_next xs sub) = subscribed sub"
  by (simp add: on_next_def Let_def)

lemma agrees_AnimationFrame:
  assumes "agrees cs w"
  shows "agrees cs (step cs w AnimationFrame)"
proof (cases "scheduled w")
  case False
  with assms show ?thesis by (simp add: step_def)
next
  case True
  have "connected (step cs w AnimationFrame) = connected w"
    using True by (simp add: step_def connected_def list_ex_iff subscribed_on_next)
  with assms True show ?thesis by (simp add: step_def agrees_def)
qed

lemma panes_of_set:
  "set (concat (map (\<lambda>c. panes_of c w) cs)) = {(p, i). \<exists>c. (p, c, i) \<in> set (panes w) \<and> c \<in> set cs}"
proof (intro equalityI subsetI)
  fix x assume "x \<in> set (concat (map (\<lambda>c. panes_of c w) cs))"
  then show "x \<in> {(p, i). \<exists>c. (p, c, i) \<in> set (panes w) \<and> c \<in> set cs}"
    by (auto simp: panes_of_def)
next
  fix x assume "x \<in> {(p, i). \<exists>c. (p, c, i) \<in> set (panes w) \<and> c \<in> set cs}"
  then obtain p i c where x: "x = (p, i)" and m: "(p, c, i) \<in> set (panes w)" and c: "c \<in> set cs"
    by blast
  from m have "(p, i) \<in> set (panes_of c w)"
    by (force simp: panes_of_def)
  with c x show "x \<in> set (concat (map (\<lambda>c. panes_of c w) cs))" by auto
qed

lemma agrees_Subscribe:
  assumes "agrees cs w"
  shows "agrees cs (step cs w (Subscribe item))"
proof (cases "connected w")
  case True
  let ?w1 = "w\<lparr>subscribers := subscribers w @
                  [\<lparr>watched = item, subscribed = True, lastValue = None, received = []\<rparr>]\<rparr>"
  have "connected ?w1" by (simp add: connected_def)
  with assms True show ?thesis
    by (simp add: step_def subscribe_def agrees_def Let_def)
next
  case False
  from assms have dp: "distinct (map fst (panes w))" by (simp add: agrees_def)
  from assms False have empty: "panesToActiveItem w = []" "observedPanes w = []"
    by (simp_all add: agrees_def)
  let ?w1 = "w\<lparr>subscribers := subscribers w @
                  [\<lparr>watched = item, subscribed = True, lastValue = None, received = []\<rparr>]\<rparr>"
  let ?L = "concat (map (\<lambda>c. panes_of c ?w1) cs)"
  have con1: "connected ?w1" by (simp add: connected_def)
  have st: "step cs w (Subscribe item) = connect cs ?w1"
    using False by (simp add: step_def subscribe_def Let_def)
  have L: "set ?L = {(p, i). \<exists>c. (p, c, i) \<in> set (panes w) \<and> c \<in> set cs}"
    using panes_of_set[of ?w1 cs] by simp
  have fn: "\<forall>p i j. (p, i) \<in> set ?L \<longrightarrow> (p, j) \<in> set ?L \<longrightarrow> i = j"
    unfolding L using dp by (auto dest: eq_key_imp_eq_value)
  have d1: "distinct (map fst (panesToActiveItem ?w1))" using empty by simp
  note o = observe_all[OF d1 fn]
  have 1: "panes (connect cs ?w1) = panes w" using o by (simp add: connect_def)
  have 2: "connected (connect cs ?w1)"
    using o con1 by (simp add: connect_def connected_def)
  have 3: "distinct (map fst (panesToActiveItem (connect cs ?w1)))"
    using o by (simp add: connect_def)
  have 4: "set (observedPanes (connect cs ?w1)) = {pane. \<exists>c i. (pane, c, i) \<in> set (panes w) \<and> c \<in> set cs}"
  proof -
    have "set (observedPanes (connect cs ?w1)) = fst ` set ?L"
      using o empty by (simp add: connect_def)
    also have "\<dots> = {pane. \<exists>c i. (pane, c, i) \<in> set (panes w) \<and> c \<in> set cs}"
      unfolding L by force
    finally show ?thesis .
  qed
  have 5: "set (panesToActiveItem (connect cs ?w1)) =
      {(pane, i). \<exists>c. (pane, c, Some i) \<in> set (panes w) \<and> c \<in> set cs}"
  proof -
    have "set (panesToActiveItem (connect cs ?w1)) = {(p, i). (p, Some i) \<in> set ?L}"
      using o empty by (simp add: connect_def)
    also have "\<dots> = {(pane, i). \<exists>c. (pane, c, Some i) \<in> set (panes w) \<and> c \<in> set cs}"
      unfolding L by simp
    finally show ?thesis .
  qed
  show ?thesis
    unfolding st agrees_def using 1 2 3 4 5 dp by simp
qed

lemma agrees_Unsubscribe:
  assumes "agrees cs w" and "connected w \<longrightarrow> connected (step cs w (Unsubscribe n))"
  shows "agrees cs (step cs w (Unsubscribe n))"
proof (cases "n < length (subscribers w) \<and> subscribed (subscribers w ! n)")
  case False
  with assms show ?thesis by (auto simp: step_def unsubscribe_def)
next
  case True
  then have con: "connected w"
    by (auto simp: connected_def list_ex_iff)
  let ?w1 = "w\<lparr>subscribers := (subscribers w)[n := (subscribers w ! n)\<lparr>subscribed := False\<rparr>]\<rparr>"
  have still: "connected ?w1"
  proof (rule ccontr)
    assume nc: "\<not> connected ?w1"
    with True have "step cs w (Unsubscribe n) = disconnect ?w1"
      by (simp add: step_def unsubscribe_def Let_def)
    moreover have "\<not> connected (disconnect ?w1)"
      using nc by (simp add: disconnect_def connected_def)
    ultimately show False using assms(2) con by simp
  qed
  with True have "step cs w (Unsubscribe n) = ?w1"
    by (simp add: step_def unsubscribe_def Let_def)
  with assms(1) con still show ?thesis by (simp add: agrees_def)
qed

lemma agrees_step:
  assumes "agrees cs w" and "connected w \<longrightarrow> connected (step cs w ev)"
  shows "agrees cs (step cs w ev)"
proof (cases ev)
  case (AddPane c p current)
  with assms(1) show ?thesis by (simp add: agrees_AddPane)
next
  case (ActivateItem p i)
  with assms(1) show ?thesis by (simp add: agrees_ActivateItem)
next
  case (DestroyPane p)
  with assms(1) show ?thesis by (simp add: agrees_DestroyPane)
next
  case AnimationFrame
  with assms(1) show ?thesis by (simp add: agrees_AnimationFrame)
next
  case (Subscribe item)
  with assms(1) show ?thesis by (simp add: agrees_Subscribe)
next
  case (Unsubscribe n)
  with assms show ?thesis by (simp add: agrees_Unsubscribe)
qed

lemma agrees_new_world: "agrees cs new_world"
  by (simp add: agrees_def new_world_def connected_def)

lemma world_after_snoc: "world_after cs w (evs @ [ev]) = step cs (world_after cs w evs) ev"
  by (simp add: world_after_def)

text \<open>
  While the pipeline has not been left by its last subscriber, the \<open>Map\<close> agrees with the
  workspace, and the array passed to the subscribers on a frame holds the active items of
  the panes, no more and no less.
\<close>

lemma first_connection_agrees:
  assumes "\<forall>n<length evs. connected (world_after cs new_world (take n evs))
             \<longrightarrow> connected (world_after cs new_world (take (Suc n) evs))"
  shows "agrees cs (world_after cs new_world evs)"
  using assms
proof (induction evs rule: rev_induct)
  case Nil
  show ?case by (simp add: world_after_def agrees_new_world)
next
  case (snoc ev evs)
  have "\<forall>n<length evs. connected (world_after cs new_world (take n evs))
             \<longrightarrow> connected (world_after cs new_world (take (Suc n) evs))"
  proof (intro allI impI)
    fix n assume n: "n < length evs" and c: "connected (world_after cs new_world (take n evs))"
    from snoc.prems[rule_format, of n] n c show "connected (world_after cs new_world (take (Suc n) evs))"
      by simp
  qed
  from snoc.IH[OF this] have a: "agrees cs (world_after cs new_world evs)" .
  from snoc.prems[rule_format, of "length evs"]
  have "connected (world_after cs new_world evs) \<longrightarrow>
        connected (step cs (world_after cs new_world evs) ev)"
    by (simp add: world_after_snoc)
  from agrees_step[OF a this] show ?case by (simp add: world_after_snoc)
qed

lemma first_connection_active_items:
  assumes "\<forall>n<length evs. connected (world_after cs new_world (take n evs))
             \<longrightarrow> connected (world_after cs new_world (take (Suc n) evs))"
    and "connected (world_after cs new_world evs)"
  shows "set (map snd (panesToActiveItem (world_after cs new_world evs)))
           = set (active_items cs (world_after cs new_world evs))"
  using agrees_values[OF first_connection_agrees[OF assms(1)] assms(2)] .


lemma without_repeats_on_next:
  assumes "without_repeats sub"
  shows "without_repeats (on_next xs sub)"
proof -
  from assms obtain bs where bs: "received sub = map Next bs" "distinct_adj bs"
    "lastValue sub = (if bs = [] then None else Some (last bs))"
    unfolding without_repeats_def by blast
  show ?thesis
  proof (cases "subscribed sub \<and> lastValue sub \<noteq> Some (watched sub \<in> set xs)")
    case False
    then have "on_next xs sub = sub" by (auto simp: on_next_def Let_def)
    with assms show ?thesis by simp
  next
    case True
    let ?v = "watched sub \<in> set xs"
    from True have eq: "on_next xs sub = sub\<lparr>lastValue := Some ?v, received := received sub @ [Next ?v]\<rparr>"
      by (simp add: on_next_def Let_def)
    from True bs(3) have "bs = [] \<or> last bs \<noteq> ?v" by (auto split: if_splits)
    with bs(2) have "distinct_adj (bs @ [?v])" by (auto simp: distinct_adj_append_iff)
    moreover have "received (on_next xs sub) = map Next (bs @ [?v])" using eq bs(1) by simp
    moreover have "lastValue (on_next xs sub) = (if bs @ [?v] = [] then None else Some (last (bs @ [?v])))"
      using eq by simp
    ultimately show ?thesis unfolding without_repeats_def by blast
  qed
qed

lemma subscribers_observe_all:
  "subscribers (foldl (\<lambda>w (pane, current). observe_pane pane current w) w L) = subscribers w"
  by (induction L rule: rev_induct) (auto simp: observe_pane_def item_activation_def)

lemma subscribers_step:
  assumes "list_all without_repeats (subscribers w)"
  shows "list_all without_repeats (subscribers (step cs w ev))
       \<and> length (subscribers w) \<le> length (subscribers (step cs w ev))"
proof (cases ev)
  case (AddPane c p current)
  with assms show ?thesis
    by (simp add: step_def Let_def observe_pane_def item_activation_def)
next
  case (ActivateItem p i)
  with assms show ?thesis
    by (simp add: step_def Let_def item_activation_def split: option.splits)
next
  case (DestroyPane p)
  with assms show ?thesis
    by (simp add: step_def Let_def item_activation_def)
next
  case AnimationFrame
  with assms show ?thesis
    by (auto simp: step_def list_all_iff without_repeats_on_next)
next
  case (Subscribe item)
  have "without_repeats \<lparr>watched = item, subscribed = True, lastValue = None, received = []\<rparr>"
    unfolding without_repeats_def by (intro exI[of _ "[]"]) simp
  with assms Subscribe show ?thesis
    by (simp add: step_def subscribe_def Let_def connect_def subscribers_observe_all)
next
  case (Unsubscribe n)
  show ?thesis
  proof (cases "n < length (subscribers w) \<and> subscribed (subscribers w ! n)")
    case False
    with assms Unsubscribe show ?thesis by (auto simp: step_def unsubscribe_def)
  next
    case True
    let ?subs = "(subscribers w)[n := (subscribers w ! n)\<lparr>subscribed := False\<rparr>]"
    from assms True have "without_repeats (subscribers w ! n)" by (simp add: list_all_length)
    then have "without_repeats ((subscribers w ! n)\<lparr>subscribed := False\<rparr>)"
      by (simp add: without_repeats_def)
    with assms have "list_all without_repeats ?subs"
      by (auto simp: list_all_iff dest!: set_update_subset_insert[THEN subsetD])
    with True Unsubscribe show ?thesis
      by (simp add: step_def unsubscribe_def Let_def disconnect_def)
  qed
qed

lemma subscribers_world_after:
  assumes "list_all without_repeats (subscribers w)"
  shows "list_all without_repeats (subscribers (world_after cs w evs))
       \<and> length (subscribers w) \<le> length (subscribers (world_after cs w evs))"
proof (induction evs rule: rev_induct)
  case Nil
  with assms show ?case by (simp add: world_after_def)
next
  case (snoc ev evs)
  from subscribers_step[OF snoc.IH[THEN conjunct1], of cs ev] snoc.IH[THEN conjunct2]
  show ?case by (simp add: world_after_snoc)
qed

text \<open>
  Whatever the events, and also after the pipeline has been left and joined again, a
  subscriber receives values only, and never the same value twice in a row.
\<close>

lemma visibility_never_repeats:
  assumes "getPaneContainers ws = Some cs" and "cs \<noteq> []"
    and "list_all without_repeats (subscribers w)"
  shows "\<exists>bs. observePaneItemVisibility ws item w evs = map Next bs \<and> distinct_adj bs"
proof -
  let ?w1 = "subscribe cs item w"
  have s1: "subscribers ?w1 = subscribers w @
      [\<lparr>watched = item, subscribed = True, lastValue = None, received = []\<rparr>]"
    by (simp add: subscribe_def Let_def connect_def subscribers_observe_all)
  have "?w1 = step cs w (Subscribe item)" by (simp add: step_def)
  with subscribers_step[OF assms(3), of cs "Subscribe item"]
  have a1: "list_all without_repeats (subscribers ?w1)" by simp
  from subscribers_world_after[OF a1, of cs evs] s1
  have all: "list_all without_repeats (subscribers (world_after cs ?w1 evs))"
    and len: "length (subscribers w) < length (subscribers (world_after cs ?w1 evs))"
    by simp_all
  from all len have "without_repeats (subscribers (world_after cs ?w1 evs) ! length (subscribers w))"
    by (simp add: list_all_length)
  then show ?thesis
    using assms(1,2) unfolding without_repeats_def observePaneItemVisibility_def by auto
qed

lemma new_world_without_repeats: "list_all without_repeats (subscribers new_world)"
  by (simp add: new_world_def)


lemma on_next_set: "set xs = set ys \<Longrightarrow> on_next xs sub = on_next ys sub"
  by (simp add: on_next_def)

lemma first_connection_frame:
  assumes "\<forall>n<length evs. connected (world_after cs new_world (take n evs))
             \<longrightarrow> connected (world_after cs new_world (take (Suc n) evs))"
    and "w = world_after cs new_world evs"
  shows "step cs w AnimationFrame =
           (if scheduled w
            then w\<lparr>scheduled := False,
                   subscribers := map (on_next (active_items cs w)) (subscribers w)\<rparr>
            else w)"
proof (cases "scheduled w")
  case False
  then show ?thesis by (simp add: step_def)
next
  case True
  from first_connection_agrees[OF assms(1)] assms(2) have a: "agrees cs w" by simp
  with True have "connected w" by (auto simp: agrees_def split: if_splits)
  from agrees_values[OF a this]
  have "on_next (map snd (panesToActiveItem w)) = on_next (active_items cs w)"
    by (intro ext on_next_set)
  with True show ?thesis by (simp add: step_def)
qed

lemma stale_world_eq:
  "stale_world =
     \<lparr>panes = [(2, ''center'', Some ''y'')],
      panesToActiveItem = [(1, ''x'')],
      observedPanes = [],
      scheduled = False,
      subscribers = [\<lparr>watched = ''x'', subscribed = False, lastValue = Some True,
                      received = [Next True]\<rparr>]\<rparr>"
  by (simp add: stale_world_def stale_history_def world_after_def new_world_def step_def
      subscribe_def unsubscribe_def connect_def disconnect_def connected_def panes_of_def
      observe_pane_def item_activation_def scan_accumulator_def on_next_def Let_def)

text \<open>
  Claim C6 fails after the pipeline has been left by its last subscriber.  In the world
  above the item \<open>x\<close> is the active item of no pane, the pane that showed it being
  destroyed; yet the \<open>Map\<close> still holds the entry of that pane, and a new subscriber
  watching \<open>x\<close> receives \<open>true\<close> on the next frame.
\<close>

theorem destroyed_pane_still_counted:
  "active_items [''center''] stale_world = [''y'']
   \<and> observePaneItemVisibility center_workspace ''x'' stale_world [AnimationFrame] = [Next True]"
  by (simp add: stale_world_eq active_items_def observePaneItemVisibility_def center_workspace_def
      world_after_def step_def subscribe_def connect_def connected_def panes_of_def
      observe_pane_def item_activation_def scan_accumulator_def on_next_def Let_def)

text \<open>
  Claim C10.  Where the workspace does not provide \<open>getPaneContainers\<close>, the observable
  emits no value and completes at once, whatever the item, whatever the world in which
  it is subscribed to and whatever happens then.
\<close>

theorem no_pane_containers_empty:
  "observePaneItemVisibility (ws\<lparr>getPaneContainers := None\<rparr>) item w evs = [Complete]"
  by (simp add: observePaneItemVisibility_def)

end
